theory Spec2Isabelle
  imports Main "HOL-Library.AList"
begin

section \<open>JavaScript values, property names and errors\<close>

text \<open>
  The class \<open>Dictionary\<close> of \<open>src/Dictionary.ts\<close> stores its entries as properties of
  the object itself (\<open>this[key] = value\<close>), so what its methods do is decided by the
  property semantics of ECMAScript: own properties, the prototype chain, enumeration
  order and strict-mode assignment. This section fixes the fragment of the language
  that the development follows.

  Values are the primitives (numbers are the integers), function objects (named), the
  object held by the field \<open>__private__\<close> and the prototype object of the class. Strings
  are lists of 8-bit characters.
\<close>

datatype jsval =
    Undefined
  | Null
  | VBool bool
  | VNum int
  | VStr string
  | VFun string
  | VInner
  | VProto

text \<open>
  \<open>TypeError\<close> is the exception of the language. \<open>Unmodelled\<close> marks a call that
  leaves the fragment: a key or a callee whose behaviour rests on a function object
  this development knows nothing about, or an assignment that replaces the prototype
  of the container.
\<close>

datatype error = TypeError | Unmodelled

definition digit_char :: "nat \<Rightarrow> char" where
  "digit_char n = ''0123456789'' ! (n mod 10)"

fun show_nat :: "nat \<Rightarrow> string" where
  "show_nat n = (if n < 10 then [digit_char n] else show_nat (n div 10) @ [digit_char (n mod 10)])"

declare show_nat.simps [simp del]

definition show_int :: "int \<Rightarrow> string" where
  "show_int i = (if i < 0 then CHR ''-'' # show_nat (nat (- i)) else show_nat (nat i))"

text \<open>
  \<open>ToPropertyKey\<close>: the property name a key argument of type \<open>any\<close> stands for. A
  number is written in decimal when it is a safe integer (at most \<open>2^53 - 1\<close> in
  absolute value); the two objects convert to \<open>[object Object]\<close>.
\<close>

fun to_property_key :: "jsval \<Rightarrow> error + string" where
  "to_property_key Undefined = Inr ''undefined''"
| "to_property_key Null = Inr ''null''"
| "to_property_key (VBool b) = Inr (if b then ''true'' else ''false'')"
| "to_property_key (VNum n) =
     (if \<bar>n\<bar> \<le> 9007199254740991 then Inr (show_int n) else Inl Unmodelled)"
| "to_property_key (VStr s) = Inr s"
| "to_property_key (VFun f) = Inl Unmodelled"
| "to_property_key VInner = Inr ''[object Object]''"
| "to_property_key VProto = Inr ''[object Object]''"

text \<open>\<open>String.prototype.indexOf\<close>: the first position of \<open>pat\<close> in \<open>s\<close>, or \<open>-1\<close>.\<close>

fun indexOf :: "string \<Rightarrow> string \<Rightarrow> int" where
  "indexOf pat [] = (if pat = [] then 0 else - 1)"
| "indexOf pat (c # cs) =
     (if take (length pat) (c # cs) = pat then 0
      else (let r = indexOf pat cs in if r < 0 then - 1 else r + 1))"

section \<open>The container as an object\<close>

text \<open>
  \<open>DictionaryInner\<close> is the interface of the same name (lines 313-317); the container
  holds it in the own property \<open>__private__\<close>, which the constructor defines with
  \<open>Object.defineProperty\<close> as not enumerable (and so, by the defaults of that call, not
  writable and not configurable). \<open>props\<close> are the own enumerable data properties, the
  entries, in the order of their creation. The declaration of the field in line 9 has no
  initialiser and creates no property; the generator of lines 29-34 is an own property
  under a symbol, which no string names.
\<close>

record DictionaryInner =
  cacheKeys :: bool
  invalidateKeys :: bool
  keys :: "string list option"

record Dictionary =
  props :: "(string \<times> jsval) list"
  inner :: DictionaryInner

definition new_Dictionary :: "bool \<Rightarrow> Dictionary" where
  "new_Dictionary cache =
     \<lparr>props = [], inner = \<lparr>cacheKeys = cache, invalidateKeys = True, keys = None\<rparr>\<rparr>"

text \<open>
  The names found on the prototype chain: the members of the class (its methods and the
  getter \<open>length\<close>) and the members of \<open>Object.prototype\<close>. None of them is enumerable.
\<close>

definition class_members :: "string list" where
  "class_members =
     [''constructor'', ''entries'', ''has'', ''size'', ''length'', ''invalidate'', ''keys'',
      ''getKeys'', ''values'', ''remove'', ''set'', ''get'', ''getDefault'', ''empty'',
      ''clear'', ''asyncEmpty'', ''forEach'', ''each'', ''asyncForEach'']"

definition object_members :: "string list" where
  "object_members =
     [''constructor'', ''__defineGetter__'', ''__defineSetter__'', ''hasOwnProperty'',
      ''__lookupGetter__'', ''__lookupSetter__'', ''isPrototypeOf'',
      ''propertyIsEnumerable'', ''toString'', ''valueOf'', ''__proto__'',
      ''toLocaleString'']"

text \<open>
  An array index is the canonical decimal form of a number below \<open>2^32 - 1\<close>.
  \<open>Object.keys\<close> lists the own enumerable string keys: array indices first, ascending,
  then the other names in the order of their creation.
\<close>

definition is_digit :: "char \<Rightarrow> bool" where
  "is_digit c = (48 \<le> (of_char c :: nat) \<and> (of_char c :: nat) \<le> 57)"

definition digit_val :: "char \<Rightarrow> nat" where
  "digit_val c = of_char c - 48"

definition parse_nat :: "string \<Rightarrow> nat" where
  "parse_nat s = foldl (\<lambda>a c. 10 * a + digit_val c) 0 s"

definition is_array_index :: "string \<Rightarrow> bool" where
  "is_array_index s =
     (case s of
        [] \<Rightarrow> False
      | c # r \<Rightarrow>
          list_all is_digit s \<and> (r = [] \<or> c \<noteq> CHR ''0'') \<and> parse_nat s < 4294967295)"

definition Object_keys :: "Dictionary \<Rightarrow> string list" where
  "Object_keys d =
     (let ks = map fst (props d)
      in sort_key parse_nat (filter is_array_index ks) @ filter (\<lambda>k. \<not> is_array_index k) ks)"

text \<open>
  A call \<open>this.m(...)\<close> looks \<open>m\<close> up on the container first: an entry stored under the
  name of a method hides the method, and the call raises unless the entry is a function.
\<close>

definition lookup_method :: "string \<Rightarrow> Dictionary \<Rightarrow> error option" where
  "lookup_method name d =
     (case map_of (props d) name of
        None \<Rightarrow> None
      | Some (VFun f) \<Rightarrow> Some Unmodelled
      | Some v \<Rightarrow> Some TypeError)"

text \<open>
  The definitions of the methods below are the method bodies; where a body calls
  \<open>this.m(...)\<close> it looks \<open>m\<close> up first. A call \<open>d.m(...)\<close> that the user of the container
  writes is looked up in the same way, and only then runs the body: \<open>call\<close>.
\<close>

definition call :: "string \<Rightarrow> (Dictionary \<Rightarrow> error + 'a) \<Rightarrow> Dictionary \<Rightarrow> error + 'a" where
  "call name body d = (case lookup_method name d of Some e \<Rightarrow> Inl e | None \<Rightarrow> body d)"

definition hasOwnProperty :: "string \<Rightarrow> Dictionary \<Rightarrow> bool" where
  "hasOwnProperty p d = (p = ''__private__'' \<or> map_of (props d) p \<noteq> None)"

text \<open>
  \<open>this[p] = v\<close> in strict code (a class body is strict). An own entry is overwritten in
  place. \<open>__private__\<close> is not writable and \<open>length\<close> is a getter without a setter: both
  assignments raise. \<open>__proto__\<close> is the accessor of \<open>Object.prototype\<close>, whose setter
  ignores a primitive other than \<open>null\<close> and replaces the prototype otherwise. Any other
  name, also one of a method, becomes a new own property.
\<close>

definition is_object :: "jsval \<Rightarrow> bool" where
  "is_object v = (case v of VFun f \<Rightarrow> True | VInner \<Rightarrow> True | VProto \<Rightarrow> True | _ \<Rightarrow> False)"

definition set_prop :: "string \<Rightarrow> jsval \<Rightarrow> Dictionary \<Rightarrow> error + Dictionary" where
  "set_prop p v d =
     (if map_of (props d) p \<noteq> None then Inr (d\<lparr>props := AList.update p v (props d)\<rparr>)
      else if p = ''__private__'' then Inl TypeError
      else if p = ''length'' then Inl TypeError
      else if p = ''__proto__'' then (if is_object v \<or> v = Null then Inl Unmodelled else Inr d)
      else Inr (d\<lparr>props := AList.update p v (props d)\<rparr>))"

text \<open>\<open>delete this[p]\<close> in strict code: \<open>__private__\<close> is not configurable.\<close>

definition delete_prop :: "string \<Rightarrow> Dictionary \<Rightarrow> error + Dictionary" where
  "delete_prop p d =
     (if p = ''__private__'' then Inl TypeError
      else Inr (d\<lparr>props := AList.delete p (props d)\<rparr>))"

section \<open>Storage and key cache\<close>

text \<open>\<open>invalidate\<close>, lines 94-96.\<close>

definition invalidate :: "Dictionary \<Rightarrow> Dictionary" where
  "invalidate d = d\<lparr>inner := (inner d)\<lparr>invalidateKeys := True\<rparr>\<rparr>"

text \<open>\<open>getKeys\<close>, lines 110-121: the keys, and the container with its cache refreshed.\<close>

definition getKeys :: "Dictionary \<Rightarrow> string list \<times> Dictionary" where
  "getKeys d =
     (if \<not> cacheKeys (inner d) then (Object_keys d, d)
      else (case (invalidateKeys (inner d), keys (inner d)) of
              (False, Some ks) \<Rightarrow> (ks, d)
            | _ \<Rightarrow> (Object_keys d,
                    d\<lparr>inner := (inner d)\<lparr>invalidateKeys := False,
                                               keys := Some (Object_keys d)\<rparr>\<rparr>)))"

text \<open>\<open>keys\<close>, lines 102-104, and \<open>size\<close>, lines 79-81, call \<open>this.getKeys()\<close>.\<close>

definition keys_dict :: "Dictionary \<Rightarrow> error + (string list \<times> Dictionary)" where
  "keys_dict d = (case lookup_method ''getKeys'' d of Some e \<Rightarrow> Inl e | None \<Rightarrow> Inr (getKeys d))"

definition size_dict :: "Dictionary \<Rightarrow> error + (nat \<times> Dictionary)" where
  "size_dict d =
     (case lookup_method ''getKeys'' d of
        Some e \<Rightarrow> Inl e
      | None \<Rightarrow> (case getKeys d of (ks, d') \<Rightarrow> Inr (length ks, d')))"

text \<open>The getter \<open>length\<close>, lines 87-89, calls \<open>this.size()\<close>.\<close>

definition length_dict :: "Dictionary \<Rightarrow> error + (nat \<times> Dictionary)" where
  "length_dict d = (case lookup_method ''size'' d of Some e \<Rightarrow> Inl e | None \<Rightarrow> size_dict d)"

text \<open>
  \<open>this[p]\<close>: the own entry, else the field \<open>__private__\<close>, else what the prototype chain
  holds under that name: the getter \<open>length\<close> (which runs), a method of the class, the
  accessor \<open>__proto__\<close> or a function of \<open>Object.prototype\<close>; else \<open>undefined\<close>.
\<close>

definition get_prop :: "string \<Rightarrow> Dictionary \<Rightarrow> error + (jsval \<times> Dictionary)" where
  "get_prop p d =
     (case map_of (props d) p of
        Some v \<Rightarrow> Inr (v, d)
      | None \<Rightarrow>
          if p = ''__private__'' then Inr (VInner, d)
          else if p = ''length'' then
            (case length_dict d of Inl e \<Rightarrow> Inl e | Inr (n, d') \<Rightarrow> Inr (VNum (int n), d'))
          else if p \<in> set class_members then Inr (VFun p, d)
          else if p = ''__proto__'' then Inr (VProto, d)
          else if p \<in> set object_members then Inr (VFun p, d)
          else Inr (Undefined, d))"

text \<open>\<open>has\<close>, lines 64-72. \<open>key == null\<close> holds of \<open>null\<close> and \<open>undefined\<close>.\<close>

definition has :: "jsval \<Rightarrow> Dictionary \<Rightarrow> error + bool" where
  "has key d =
     (if key = Null \<or> key = Undefined then Inr False
      else if (case key of VStr s \<Rightarrow> indexOf ''__private__'' s \<ge> 0 | _ \<Rightarrow> False) then Inr False
      else (case lookup_method ''hasOwnProperty'' d of
              Some e \<Rightarrow> Inl e
            | None \<Rightarrow> (case to_property_key key of
                         Inl e \<Rightarrow> Inl e
                       | Inr p \<Rightarrow> Inr (hasOwnProperty p d))))"

text \<open>\<open>remove\<close>, lines 140-143, and \<open>set\<close>, lines 152-155.\<close>

definition remove_dict :: "jsval \<Rightarrow> Dictionary \<Rightarrow> error + Dictionary" where
  "remove_dict key d =
     (case lookup_method ''invalidate'' d of
        Some e \<Rightarrow> Inl e
      | None \<Rightarrow> (case to_property_key key of
                   Inl e \<Rightarrow> Inl e
                 | Inr p \<Rightarrow> delete_prop p (invalidate d)))"

definition set_dict :: "jsval \<Rightarrow> jsval \<Rightarrow> Dictionary \<Rightarrow> error + Dictionary" where
  "set_dict key v d =
     (case lookup_method ''invalidate'' d of
        Some e \<Rightarrow> Inl e
      | None \<Rightarrow> (case to_property_key key of
                   Inl e \<Rightarrow> Inl e
                 | Inr p \<Rightarrow> set_prop p v (invalidate d)))"

text \<open>\<open>get\<close>, lines 162-164, and \<open>getDefault\<close>, lines 172-178.\<close>

definition get :: "jsval \<Rightarrow> Dictionary \<Rightarrow> error + (jsval \<times> Dictionary)" where
  "get key d = (case to_property_key key of Inl e \<Rightarrow> Inl e | Inr p \<Rightarrow> get_prop p d)"

definition getDefault :: "jsval \<Rightarrow> jsval \<Rightarrow> Dictionary \<Rightarrow> error + (jsval \<times> Dictionary)" where
  "getDefault key defaultValue d =
     (case lookup_method ''has'' d of
        Some e \<Rightarrow> Inl e
      | None \<Rightarrow> (case has key d of
                   Inl e \<Rightarrow> Inl e
                 | Inr True \<Rightarrow> get key d
                 | Inr False \<Rightarrow> Inr (defaultValue, d)))"

text \<open>
  \<open>values\<close>, lines 127-134. The loop is \<open>for (let key in keys)\<close> over the array of keys:
  it enumerates the indices of the array, as strings, and reads \<open>this[index]\<close>.
\<close>

fun values_loop :: "string list \<Rightarrow> jsval list \<Rightarrow> Dictionary \<Rightarrow> error + (jsval list \<times> Dictionary)" where
  "values_loop [] arr d = Inr (arr, d)"
| "values_loop (key # rest) arr d =
     (case get_prop key d of
        Inl e \<Rightarrow> Inl e
      | Inr (v, d') \<Rightarrow> values_loop rest (arr @ [v]) d')"

definition values_dict :: "Dictionary \<Rightarrow> error + (jsval list \<times> Dictionary)" where
  "values_dict d =
     (case lookup_method ''getKeys'' d of
        Some e \<Rightarrow> Inl e
      | None \<Rightarrow> (case getKeys d of
                   (ks, d') \<Rightarrow> values_loop (map show_nat [0..<length ks]) [] d'))"

text \<open>
  \<open>entries\<close>, lines 46-56: the pairs the generator yields when it is run to its end with
  nothing else touching the container in between.
\<close>

fun entries_loop :: "string list \<Rightarrow> (string \<times> jsval) list \<Rightarrow> Dictionary \<Rightarrow> error + ((string \<times> jsval) list \<times> Dictionary)" where
  "entries_loop [] acc d = Inr (acc, d)"
| "entries_loop (key # rest) acc d =
     (case get_prop key d of
        Inl e \<Rightarrow> Inl e
      | Inr (v, d') \<Rightarrow> entries_loop rest (acc @ [(key, v)]) d')"

definition entries :: "Dictionary \<Rightarrow> error + ((string \<times> jsval) list \<times> Dictionary)" where
  "entries d =
     (case lookup_method ''getKeys'' d of
        Some e \<Rightarrow> Inl e
      | None \<Rightarrow> (case getKeys d of (ks, d') \<Rightarrow> entries_loop ks [] d'))"

section \<open>Synchronous iteration\<close>

text \<open>
  A step callback of \<open>each\<close> is code of the caller: it sees the key and the value, has a
  state of its own (\<open>'u\<close>), may use the container and may raise.
\<close>

type_synonym 'u each_callback =
  "string \<Rightarrow> jsval \<Rightarrow> 'u \<times> Dictionary \<Rightarrow> error + (jsval \<times> 'u \<times> Dictionary)"

text \<open>
  \<open>each\<close>, lines 232-239. \<open>for (let key in this)\<close> takes the own keys once, in the order
  of \<open>Object.keys\<close>, and skips a key that is gone when its turn comes; the prototype
  chain adds no key, since none of its properties is enumerable. The loop stops when the
  callback returns a value that is \<open>=== false\<close>.
\<close>

fun each_loop :: "'u each_callback \<Rightarrow> string list \<Rightarrow> 'u \<times> Dictionary \<Rightarrow> error + ('u \<times> Dictionary)" where
  "each_loop cbEach [] (u, d) = Inr (u, d)"
| "each_loop cbEach (key # rest) (u, d) =
     (if map_of (props d) key = None then each_loop cbEach rest (u, d)
      else (case lookup_method ''has'' d of
              Some e \<Rightarrow> Inl e
            | None \<Rightarrow>
               (case has (VStr key) d of
                  Inl e \<Rightarrow> Inl e
                | Inr False \<Rightarrow> each_loop cbEach rest (u, d)
                | Inr True \<Rightarrow>
                    (case get_prop key d of
                       Inl e \<Rightarrow> Inl e
                     | Inr (v, d1) \<Rightarrow>
                         (case cbEach key v (u, d1) of
                            Inl e \<Rightarrow> Inl e
                          | Inr (r, u', d') \<Rightarrow>
                              if r = VBool False then Inr (u', d')
                              else each_loop cbEach rest (u', d'))))))"

definition each :: "'u each_callback \<Rightarrow> 'u \<times> Dictionary \<Rightarrow> error + ('u \<times> Dictionary)" where
  "each cbEach s = each_loop cbEach (Object_keys (snd s)) s"

text \<open>\<open>forEach\<close>, lines 224-226.\<close>

definition forEach :: "'u each_callback \<Rightarrow> 'u \<times> Dictionary \<Rightarrow> error + ('u \<times> Dictionary)" where
  "forEach cb s = (case lookup_method ''each'' (snd s) of Some e \<Rightarrow> Inl e | None \<Rightarrow> each cb s)"

text \<open>\<open>empty\<close>, lines 184-188, with its arrow function, and \<open>clear\<close>, lines 193-195.\<close>

definition empty_callback :: "unit each_callback" where
  "empty_callback key v s =
     (case lookup_method ''remove'' (snd s) of
        Some e \<Rightarrow> Inl e
      | None \<Rightarrow> (case remove_dict (VStr key) (snd s) of
                   Inl e \<Rightarrow> Inl e
                 | Inr d' \<Rightarrow> Inr (Undefined, (), d')))"

definition empty_dict :: "Dictionary \<Rightarrow> error + Dictionary" where
  "empty_dict d =
     (case lookup_method ''forEach'' d of
        Some e \<Rightarrow> Inl e
      | None \<Rightarrow> (case forEach empty_callback ((), d) of
                   Inl e \<Rightarrow> Inl e
                 | Inr (u, d') \<Rightarrow> Inr d'))"

definition clear :: "Dictionary \<Rightarrow> error + Dictionary" where
  "clear d = (case lookup_method ''empty'' d of Some e \<Rightarrow> Inl e | None \<Rightarrow> empty_dict d)"

section \<open>Loose equality with \<open>false\<close>\<close>

text \<open>
  \<open>x == false\<close> compares \<open>ToNumber(x)\<close> with \<open>0\<close> when \<open>x\<close> is a boolean, a number or a
  string; \<open>undefined\<close> and \<open>null\<close> equal only each other; the objects of this fragment
  convert to strings that denote no number. A string denotes zero when, its white space
  trimmed, it is empty, or a binary, octal or hexadecimal literal of zeros, or a decimal
  literal whose value rounds to zero (ties to even: at most \<open>2^-1075\<close>).
\<close>

definition is_space :: "char \<Rightarrow> bool" where
  "is_space c = ((of_char c :: nat) \<in> {9, 10, 11, 12, 13, 32, 160})"

definition trim :: "string \<Rightarrow> string" where
  "trim s = rev (dropWhile is_space (rev (dropWhile is_space s)))"

definition all_zero :: "string \<Rightarrow> bool" where
  "all_zero ds = list_all (\<lambda>c. c = CHR ''0'') ds"

definition is_sign :: "char \<Rightarrow> bool" where
  "is_sign c = (c = CHR ''+'' \<or> c = CHR ''-'')"

definition radix_zero :: "string \<Rightarrow> bool" where
  "radix_zero t =
     (case t of
        c # x # ds \<Rightarrow> c = CHR ''0'' \<and> x \<in> set ''xXoObB'' \<and> ds \<noteq> [] \<and> all_zero ds
      | _ \<Rightarrow> False)"

definition unsigned :: "string \<Rightarrow> string" where
  "unsigned t = (case t of c # r \<Rightarrow> if is_sign c then r else t | [] \<Rightarrow> t)"

text \<open>The exponent part, if it is well formed: its value.\<close>

definition exponent_part :: "string \<Rightarrow> int option" where
  "exponent_part e =
     (case e of
        [] \<Rightarrow> Some 0
      | c # r \<Rightarrow>
          if (c = CHR ''e'' \<or> c = CHR ''E'') \<and> unsigned r \<noteq> [] \<and> list_all is_digit (unsigned r)
          then Some (if take 1 r = ''-'' then - int (parse_nat (unsigned r))
                     else int (parse_nat (unsigned r)))
          else None)"

definition decimal_zero :: "string \<Rightarrow> bool" where
  "decimal_zero t =
     (let u = unsigned t;
          ip = takeWhile is_digit u;
          r1 = dropWhile is_digit u;
          fp = (if take 1 r1 = ''.'' then takeWhile is_digit (drop 1 r1) else []);
          r2 = (if take 1 r1 = ''.'' then dropWhile is_digit (drop 1 r1) else r1)
      in (ip \<noteq> [] \<or> fp \<noteq> []) \<and>
         (case exponent_part r2 of
            None \<Rightarrow> False
          | Some x \<Rightarrow>
              parse_nat (ip @ fp) = 0 \<or>
              (x - int (length fp) < 0 \<and>
               parse_nat (ip @ fp) * 2 ^ 1075 \<le> 10 ^ nat (int (length fp) - x))))"

definition string_is_zero :: "string \<Rightarrow> bool" where
  "string_is_zero s = (trim s = [] \<or> radix_zero (trim s) \<or> decimal_zero (trim s))"

fun loose_eq_false :: "jsval \<Rightarrow> bool" where
  "loose_eq_false Undefined = False"
| "loose_eq_false Null = False"
| "loose_eq_false (VBool b) = (\<not> b)"
| "loose_eq_false (VNum n) = (n = 0)"
| "loose_eq_false (VStr s) = string_is_zero s"
| "loose_eq_false (VFun f) = False"
| "loose_eq_false VInner = False"
| "loose_eq_false VProto = False"

section \<open>Cooperative iteration\<close>

text \<open>
  What a step callback of \<open>asyncForEach\<close> does when it is called, in order: it calls the
  continuation it was handed (\<open>Advance\<close>), or it uses the container (\<open>Mutate\<close>, which
  may raise). It then returns a value. The callback chooses from the key, the value, its
  own state and the container; the state it leaves behind is in place when its actions
  are performed.
\<close>

datatype action = Advance | Mutate "Dictionary \<Rightarrow> error + Dictionary"

type_synonym 'u step_callback =
  "string \<Rightarrow> jsval \<Rightarrow> 'u \<Rightarrow> Dictionary \<Rightarrow> action list \<times> jsval \<times> 'u"

text \<open>
  What can be observed of a traversal: a call of the step callback, a call of the
  completion callback, a call of \<open>resolve\<close>.
\<close>

datatype event = Visited string jsval | Completed | Resolved

text \<open>
  The state of a traversal: the container, the state of the caller's callbacks, the
  variable \<open>counter\<close> of the closure, the number of calls of \<open>step\<close> that wait in the
  queue of \<open>process.nextTick\<close>, and what has happened so far. The array \<open>keys\<close> of the
  closure never changes and is passed along as \<open>ks\<close> (\<open>len\<close> is its length).
\<close>

record 'u world =
  dict :: Dictionary
  user :: 'u
  counter :: nat
  ticks :: nat
  events :: "event list"

text \<open>
  The three places of lines 265-296 that end the traversal all read
  \<open>if (cbComplete != null) cbComplete(); else resolve();\<close>
\<close>

definition finish :: "('u \<Rightarrow> 'u) option \<Rightarrow> 'u world \<Rightarrow> 'u world" where
  "finish cbComplete w =
     (case cbComplete of
        Some f \<Rightarrow> w\<lparr>user := f (user w), events := events w @ [Completed]\<rparr>
      | None \<Rightarrow> w\<lparr>events := events w @ [Resolved]\<rparr>)"

text \<open>The closure \<open>next\<close>, lines 265-276.\<close>

definition cbNext :: "('u \<Rightarrow> 'u) option \<Rightarrow> string list \<Rightarrow> 'u world \<Rightarrow> 'u world" where
  "cbNext cbComplete ks w =
     (if counter w < length ks then w\<lparr>ticks := ticks w + 1\<rparr>
      else finish cbComplete w)"

fun perform :: "('u \<Rightarrow> 'u) option \<Rightarrow> string list \<Rightarrow> action list \<Rightarrow> 'u world \<Rightarrow> error + 'u world" where
  "perform cbComplete ks [] w = Inr w"
| "perform cbComplete ks (Advance # acts) w = perform cbComplete ks acts (cbNext cbComplete ks w)"
| "perform cbComplete ks (Mutate f # acts) w =
     (case f (dict w) of
        Inl e \<Rightarrow> Inl e
      | Inr d' \<Rightarrow> perform cbComplete ks acts (w\<lparr>dict := d'\<rparr>))"

text \<open>The closure \<open>step\<close>, lines 278-296.\<close>

definition step :: "'u step_callback \<Rightarrow> ('u \<Rightarrow> 'u) option \<Rightarrow> string list \<Rightarrow> 'u world \<Rightarrow> error + 'u world" where
  "step cbIterator cbComplete ks w =
     (if counter w < length ks then
        (case get_prop (ks ! counter w) (dict w) of
           Inl e \<Rightarrow> Inl e
         | Inr (v, d) \<Rightarrow>
             (case cbIterator (ks ! counter w) v (user w) d of
                (acts, r, u) \<Rightarrow>
                  (case perform cbComplete ks acts
                          (w\<lparr>dict := d, user := u, counter := counter w + 1,
                             events := events w @ [Visited (ks ! counter w) v]\<rparr>) of
                     Inl e \<Rightarrow> Inl e
                   | Inr w' \<Rightarrow> if loose_eq_false r then Inr (finish cbComplete w') else Inr w')))
      else Inr (finish cbComplete w))"

text \<open>
  \<open>asyncForEach\<close>, lines 257-302, up to the moment it returns its promise: the executor
  of the promise runs at once, takes the keys and calls \<open>step\<close>. The result is the array
  of keys and the state the caller finds. An exception inside the executor rejects the
  promise and ends the traversal without a notification: the result is the exception.
\<close>

definition asyncForEach :: "'u step_callback \<Rightarrow> ('u \<Rightarrow> 'u) option \<Rightarrow> 'u \<times> Dictionary \<Rightarrow> error + (string list \<times> 'u world)" where
  "asyncForEach cbIterator cbComplete s =
     (case lookup_method ''getKeys'' (snd s) of
        Some e \<Rightarrow> Inl e
      | None \<Rightarrow>
          (case getKeys (snd s) of
             (ks, d) \<Rightarrow>
               (case step cbIterator cbComplete ks
                       \<lparr>dict = d, user = fst s, counter = 0, ticks = 0, events = []\<rparr> of
                  Inl e \<Rightarrow> Inl e
                | Inr w \<Rightarrow> Inr (ks, w))))"

text \<open>
  The rest of a traversal: the host runs the calls of \<open>step\<close> that wait in the queue,
  one at a time, until none is left. The traversal may then be over or stalled.
\<close>

lemma counter_finish: "counter (finish cbComplete w) = counter w"
  by (simp add: finish_def split: option.splits)

lemma ticks_finish: "ticks (finish cbComplete w) = ticks w"
  by (simp add: finish_def split: option.splits)

lemma counter_cbNext: "counter (cbNext cbComplete ks w) = counter w"
  by (simp add: cbNext_def counter_finish)

lemma counter_perform: "perform cbComplete ks acts w = Inr w' \<Longrightarrow> counter w' = counter w"
proof (induction acts arbitrary: w)
  case Nil
  then show ?case by simp
next
  case (Cons a acts)
  then show ?case
    by (cases a) (auto simp: counter_cbNext split: sum.splits)
qed

lemma step_progress:
  assumes "step cbIterator cbComplete ks w = Inr w'"
  shows "(counter w < length ks \<and> counter w' = counter w + 1) \<or>
         (\<not> counter w < length ks \<and> counter w' = counter w \<and> ticks w' = ticks w)"
proof (cases "counter w < length ks")
  case True
  with assms have "counter w' = counter w + 1"
    by (auto simp: step_def counter_finish split: sum.splits prod.splits if_splits
             dest!: counter_perform)
  with True show ?thesis by simp
next
  case False
  with assms have "w' = finish cbComplete w"
    by (simp add: step_def)
  with False show ?thesis
    by (simp add: counter_finish ticks_finish)
qed

function run :: "'u step_callback \<Rightarrow> ('u \<Rightarrow> 'u) option \<Rightarrow> string list \<Rightarrow> 'u world \<Rightarrow> error + 'u world" where
  "run cbIterator cbComplete ks w =
     (if ticks w = 0 then Inr w
      else (case step cbIterator cbComplete ks (w\<lparr>ticks := ticks w - 1\<rparr>) of
              Inl e \<Rightarrow> Inl e
            | Inr w' \<Rightarrow> run cbIterator cbComplete ks w'))"
  by pat_completeness auto
termination
proof (relation "measures [\<lambda>(cb, cbc, ks, w). length ks - counter w, \<lambda>(cb, cbc, ks, w). ticks w]")
  show "wf (measures [\<lambda>(cb, cbc, ks, w). length ks - counter w, \<lambda>(cb, cbc, ks, w :: 'u world). ticks w])"
    by simp
next
  fix cbIterator :: "'u step_callback" and cbComplete ks and w w' :: "'u world"
  assume t: "ticks w \<noteq> 0"
    and s: "step cbIterator cbComplete ks (w\<lparr>ticks := ticks w - 1\<rparr>) = Inr w'"
  from step_progress [OF s] t
  show "((cbIterator, cbComplete, ks, w'), (cbIterator, cbComplete, ks, w))
          \<in> measures [\<lambda>(cb, cbc, ks, w). length ks - counter w, \<lambda>(cb, cbc, ks, w). ticks w]"
    by auto
qed

declare run.simps [simp del]

text \<open>
  \<open>asyncEmpty\<close>, lines 201-218, with its arrow function, followed to the end of the work
  it starts: the code after \<open>await\<close> runs once the promise of \<open>asyncForEach\<close> is
  resolved, and notifies the caller of \<open>asyncEmpty\<close>; its event is the last one.
\<close>

definition asyncEmpty_callback :: "'u step_callback" where
  "asyncEmpty_callback key v u d =
     ([Mutate (\<lambda>d. case lookup_method ''remove'' d of
                      Some e \<Rightarrow> Inl e
                    | None \<Rightarrow> remove_dict (VStr key) d),
       Advance],
      Undefined, u)"

definition asyncEmpty :: "('u \<Rightarrow> 'u) option \<Rightarrow> 'u \<times> Dictionary \<Rightarrow> error + 'u world" where
  "asyncEmpty cbComplete s =
     (case lookup_method ''asyncForEach'' (snd s) of
        Some e \<Rightarrow> Inl e
      | None \<Rightarrow>
          (case asyncForEach asyncEmpty_callback None s of
             Inl e \<Rightarrow> Inl e
           | Inr (ks, w) \<Rightarrow>
               (case run asyncEmpty_callback None ks w of
                  Inl e \<Rightarrow> Inl e
                | Inr w' \<Rightarrow>
                    if Resolved \<in> set (events w') then Inr (finish cbComplete w')
                    else Inr w')))"

section \<open>Sequences of calls\<close>

text \<open>
  The calls that change a container, as the user of the container writes them, and a
  sequence of them that stops at an exception.
\<close>

datatype op = Set jsval jsval | Remove jsval | GetKeys | Invalidate

fun apply_op :: "op \<Rightarrow> Dictionary \<Rightarrow> error + Dictionary" where
  "apply_op (Set key v) d = call ''set'' (set_dict key v) d"
| "apply_op (Remove key) d = call ''remove'' (remove_dict key) d"
| "apply_op GetKeys d = call ''getKeys'' (\<lambda>d. Inr (snd (getKeys d))) d"
| "apply_op Invalidate d = call ''invalidate'' (\<lambda>d. Inr (invalidate d)) d"

fun run_ops :: "op list \<Rightarrow> Dictionary \<Rightarrow> error + Dictionary" where
  "run_ops [] d = Inr d"
| "run_ops (x # xs) d = (case apply_op x d of Inl e \<Rightarrow> Inl e | Inr d' \<Rightarrow> run_ops xs d')"

section \<open>Notions for the properties\<close>

text \<open>
  A plain name collides with nothing: it does not contain \<open>__private__\<close> and is not a
  name of the prototype chain. A plain key stands for a plain name.
\<close>

definition plain_name :: "string \<Rightarrow> bool" where
  "plain_name p =
     (indexOf ''__private__'' p < 0 \<and> p \<notin> set class_members \<and> p \<notin> set object_members)"

definition plain_key :: "jsval \<Rightarrow> bool" where
  "plain_key key = (case to_property_key key of Inl e \<Rightarrow> False | Inr p \<Rightarrow> plain_name p)"

fun plain_op :: "op \<Rightarrow> bool" where
  "plain_op (Set key v) = plain_key key"
| "plain_op (Remove key) = plain_key key"
| "plain_op GetKeys = True"
| "plain_op Invalidate = True"

text \<open>A container all of whose entries have plain names, each name once.\<close>

definition plain :: "Dictionary \<Rightarrow> bool" where
  "plain d = (list_all plain_name (map fst (props d)) \<and> distinct (map fst (props d)))"

text \<open>The cache of keys, when it is going to be used, holds what \<open>Object.keys\<close> returns.\<close>

definition cache_ok :: "Dictionary \<Rightarrow> bool" where
  "cache_ok d =
     (invalidateKeys (inner d) \<or> keys (inner d) = None \<or> keys (inner d) = Some (Object_keys d))"


text \<open>
  Callbacks for \<open>each\<close>. An observer looks at the key and the value and keeps a state
  of its own; it leaves the container alone and does not raise. A recording callback
  behaves as the one it wraps and keeps the list of its calls: key, value and what the
  call returned. The visible keys are those that \<open>has\<close> does not reject by their name.
\<close>

definition observer :: "(string \<Rightarrow> jsval \<Rightarrow> 'u \<Rightarrow> jsval \<times> 'u) \<Rightarrow> 'u each_callback" where
  "observer f key v s = (case f key v (fst s) of (r, u') \<Rightarrow> Inr (r, u', snd s))"

definition recording :: "'u each_callback \<Rightarrow> ((string \<times> jsval \<times> jsval) list \<times> 'u) each_callback" where
  "recording cb key v s =
     (case cb key v (snd (fst s), snd s) of
        Inl e \<Rightarrow> Inl e
      | Inr (r, u', d') \<Rightarrow> Inr (r, (fst (fst s) @ [(key, v, r)], u'), d'))"

definition visible_name :: "string \<Rightarrow> bool" where
  "visible_name k = (indexOf ''__private__'' k < 0)"

definition visible :: "Dictionary \<Rightarrow> string list" where
  "visible d = filter visible_name (Object_keys d)"

text \<open>
  Examples: the container with the entries \<open>a: 1\<close>, \<open>b: 2\<close>, \<open>c: 3\<close>, caching
  disabled, and an observer that counts its calls and returns \<open>false\<close> at call \<open>N\<close>,
  \<open>undefined\<close> at every other call.
\<close>

definition abc :: Dictionary where
  "abc = \<lparr>props = [(''a'', VNum 1), (''b'', VNum 2), (''c'', VNum 3)],
           inner = \<lparr>cacheKeys = False, invalidateKeys = True, keys = None\<rparr>\<rparr>"

text \<open>The container of Scenario E, with five keys.\<close>

definition five :: Dictionary where
  "five = \<lparr>props = [(''a'', VNum 1), (''b'', VNum 2), (''c'', VNum 3), (''d'', VNum 4),
                     (''e'', VNum 5)],
            inner = \<lparr>cacheKeys = False, invalidateKeys = True, keys = None\<rparr>\<rparr>"

definition stop_at :: "nat \<Rightarrow> string \<Rightarrow> jsval \<Rightarrow> nat \<Rightarrow> jsval \<times> nat" where
  "stop_at N key v n = (if Suc n = N then VBool False else Undefined, Suc n)"

text \<open>
  The notification that ends a traversal, and the events a traversal over the keys \<open>ks\<close>
  can show: visits of keys of \<open>ks\<close>, and that notification.
\<close>

definition notification :: "('u \<Rightarrow> 'u) option \<Rightarrow> event" where
  "notification cbComplete = (case cbComplete of Some f \<Rightarrow> Completed | None \<Rightarrow> Resolved)"

fun expected :: "('u \<Rightarrow> 'u) option \<Rightarrow> string list \<Rightarrow> event \<Rightarrow> bool" where
  "expected cbComplete ks (Visited k v) = (k \<in> set ks)"
| "expected cbComplete ks Completed = (cbComplete \<noteq> None)"
| "expected cbComplete ks Resolved = (cbComplete = None)"






text \<open>Events that are visits, not notifications.\<close>

fun is_visit :: "event \<Rightarrow> bool" where
  "is_visit (Visited k v) = True"
| "is_visit Completed = False"
| "is_visit Resolved = False"

text \<open>The invariant behind the hidden field: no entry is named \<open>__private__\<close>.\<close>

definition hidden :: "Dictionary \<Rightarrow> bool" where
  "hidden d = (''__private__'' \<notin> fst ` set (props d) \<and> cache_ok d)"

section \<open>Properties\<close>

lemma show_nat_digit: "n < 10 \<Longrightarrow> show_nat n = [digit_char n]"
  by (subst show_nat.simps) simp

subsection \<open>Keys, cache and plain containers\<close>

lemma set_Object_keys: "set (Object_keys d) = fst ` set (props d)"
  by (auto simp: Object_keys_def Let_def)

lemma distinct_Object_keys: "distinct (map fst (props d)) \<Longrightarrow> distinct (Object_keys d)"
  by (auto simp: Object_keys_def Let_def)

lemma length_Object_keys: "length (Object_keys d) = length (props d)"
  unfolding Object_keys_def Let_def
  by (simp only: length_append length_sort sum_length_filter_compl length_map)

lemma props_getKeys: "props (snd (getKeys d)) = props d"
  by (simp add: getKeys_def split: option.splits bool.splits)

lemma fst_getKeys: "cache_ok d \<Longrightarrow> fst (getKeys d) = Object_keys d"
  by (auto simp: getKeys_def cache_ok_def split: option.splits bool.splits)

lemma cache_ok_getKeys: "cache_ok d \<Longrightarrow> cache_ok (snd (getKeys d))"
  by (auto simp: getKeys_def cache_ok_def Object_keys_def split: option.splits bool.splits)

lemma getKeys_again: "fst (getKeys (snd (getKeys d))) = fst (getKeys d)"
  by (auto simp: getKeys_def Object_keys_def split: option.splits bool.splits)

lemma lookup_method_absent: "map_of (props d) name = None \<Longrightarrow> lookup_method name d = None"
  by (simp add: lookup_method_def)

lemma plain_absent:
  assumes "plain d" and "\<not> plain_name name"
  shows "map_of (props d) name = None"
proof -
  from assms have "name \<notin> fst ` set (props d)"
    by (auto simp: plain_def list_all_iff)
  then show ?thesis
    by (simp add: map_of_eq_None_iff)
qed

lemma not_plain_members:
  "name \<in> set class_members \<or> name \<in> set object_members \<Longrightarrow> \<not> plain_name name"
  by (auto simp: plain_name_def)

lemma plain_lookup_method:
  assumes "plain d" and "name \<in> set class_members \<or> name \<in> set object_members"
  shows "lookup_method name d = None"
  using assms by (intro lookup_method_absent plain_absent not_plain_members)

lemma call_returns: "call name body d = Inr x \<Longrightarrow> body d = Inr x"
  by (simp add: call_def split: option.splits)

lemma call_found: "call name body d = Inr x \<Longrightarrow> lookup_method name d = None"
  by (simp add: call_def split: option.splits)

lemma call_plain:
  assumes "plain d" and "name \<in> set class_members"
  shows "call name body d = body d"
proof -
  from assms have "lookup_method name d = None"
    by (intro plain_lookup_method disjI1)
  then show ?thesis by (simp add: call_def)
qed

lemma reserved_not_plain:
  "\<not> plain_name ''__private__''" "\<not> plain_name ''length''" "\<not> plain_name ''__proto__''"
  by (simp_all add: plain_name_def class_members_def object_members_def)

lemma set_prop_plain:
  assumes "plain d" and "plain_name p"
  shows "set_prop p v d = Inr (d\<lparr>props := AList.update p v (props d)\<rparr>)"
proof -
  from assms(2) reserved_not_plain
  have "p \<noteq> ''__private__''" "p \<noteq> ''length''" "p \<noteq> ''__proto__''"
    by auto
  then show ?thesis by (simp add: set_prop_def)
qed

lemma plain_update:
  assumes "plain d" and "plain_name p"
  shows "plain (d\<lparr>props := AList.update p v (props d)\<rparr>)"
  using assms by (auto simp: plain_def update_keys distinct_update list_all_iff)

lemma plain_delete:
  assumes "plain d"
  shows "plain (d\<lparr>props := AList.delete p (props d)\<rparr>)"
  using assms by (auto simp: plain_def delete_keys distinct_removeAll list_all_iff)

lemma props_invalidate: "props (invalidate d) = props d"
  by (simp add: invalidate_def)

lemma invalid_invalidate: "invalidateKeys (inner (invalidate d))"
  by (simp add: invalidate_def)

lemma plain_invalidate: "plain (invalidate d) = plain d"
  by (simp add: plain_def invalidate_def)

lemma plain_getKeys: "plain (snd (getKeys d)) = plain d"
  by (simp add: plain_def props_getKeys)

lemma cache_ok_invalid: "invalidateKeys (inner d) \<Longrightarrow> cache_ok d"
  by (simp add: cache_ok_def)

lemma set_dict_plain:
  assumes "plain d" and "plain_key key"
  shows "\<exists>d'. set_dict key v d = Inr d' \<and> plain d' \<and> cache_ok d'"
proof -
  from assms(2) obtain p where p: "to_property_key key = Inr p" "plain_name p"
    by (auto simp: plain_key_def split: sum.splits)
  have m: "lookup_method ''invalidate'' d = None"
    using assms(1) by (rule plain_lookup_method) (simp add: class_members_def)
  have pi: "plain (invalidate d)" using assms(1) by (simp add: plain_invalidate)
  have "plain ((invalidate d)\<lparr>props := AList.update p v (props (invalidate d))\<rparr>)"
    using pi p(2) by (rule plain_update)
  moreover have "cache_ok ((invalidate d)\<lparr>props := AList.update p v (props (invalidate d))\<rparr>)"
    by (simp add: cache_ok_def invalidate_def)
  ultimately show ?thesis
    using p m pi by (simp add: call_def set_dict_def set_prop_plain)
qed

lemma remove_dict_plain:
  assumes "plain d" and "plain_key key"
  shows "\<exists>d'. remove_dict key d = Inr d' \<and> plain d' \<and> cache_ok d'"
proof -
  from assms(2) obtain p where p: "to_property_key key = Inr p" "plain_name p"
    by (auto simp: plain_key_def split: sum.splits)
  with reserved_not_plain have np: "p \<noteq> ''__private__''"
    by auto
  have m: "lookup_method ''invalidate'' d = None"
    using assms(1) by (rule plain_lookup_method) (simp add: class_members_def)
  have "plain ((invalidate d)\<lparr>props := AList.delete p (props (invalidate d))\<rparr>)"
    using assms(1) by (intro plain_delete) (simp add: plain_invalidate)
  moreover have "cache_ok ((invalidate d)\<lparr>props := AList.delete p (props (invalidate d))\<rparr>)"
    by (simp add: cache_ok_def invalidate_def)
  ultimately show ?thesis
    using p np m by (simp add: remove_dict_def delete_prop_def)
qed

lemma apply_op_plain:
  assumes "plain d" and "cache_ok d" and "plain_op x"
  shows "\<exists>d'. apply_op x d = Inr d' \<and> plain d' \<and> cache_ok d'"
proof (cases x)
  case (Set key v)
  have "call ''set'' (set_dict key v) d = set_dict key v d"
    using assms(1) by (rule call_plain) (simp add: class_members_def)
  with Set assms show ?thesis by (simp add: set_dict_plain)
next
  case (Remove key)
  have "call ''remove'' (remove_dict key) d = remove_dict key d"
    using assms(1) by (rule call_plain) (simp add: class_members_def)
  with Remove assms show ?thesis by (simp add: remove_dict_plain)
next
  case GetKeys
  have "call ''getKeys'' (\<lambda>d. Inr (snd (getKeys d))) d = Inr (snd (getKeys d))"
    using assms(1) by (rule call_plain) (simp add: class_members_def)
  with GetKeys assms show ?thesis by (simp add: plain_getKeys cache_ok_getKeys)
next
  case Invalidate
  have "call ''invalidate'' (\<lambda>d. Inr (invalidate d)) d = Inr (invalidate d)"
    using assms(1) by (rule call_plain) (simp add: class_members_def)
  with Invalidate assms show ?thesis
    by (simp add: plain_invalidate cache_ok_invalid invalid_invalidate)
qed

lemma run_ops_plain:
  assumes "list_all plain_op ops" and "plain d" and "cache_ok d"
  shows "\<exists>d'. run_ops ops d = Inr d' \<and> plain d' \<and> cache_ok d'"
  using assms
proof (induction ops arbitrary: d)
  case Nil
  then show ?case by simp
next
  case (Cons x xs)
  from Cons.prems obtain d1 where d1: "apply_op x d = Inr d1" "plain d1" "cache_ok d1"
    using apply_op_plain [of d x] by auto
  from Cons.IH [OF _ d1(2,3)] Cons.prems(1) d1(1) show ?case
    by simp
qed

lemma plain_new: "plain (new_Dictionary cache)" "cache_ok (new_Dictionary cache)"
  by (simp_all add: plain_def cache_ok_def new_Dictionary_def)

lemma has_plain:
  assumes "plain d"
  shows "has (VStr k) d = Inr (k \<in> fst ` set (props d))"
proof (cases "indexOf ''__private__'' k \<ge> 0")
  case True
  then have "\<not> plain_name k" by (simp add: plain_name_def)
  with assms have "map_of (props d) k = None" by (rule plain_absent)
  then have "k \<notin> fst ` set (props d)" by (simp add: map_of_eq_None_iff)
  with True show ?thesis by (simp add: has_def)
next
  case False
  then have "k \<noteq> ''__private__''" by auto
  moreover have "lookup_method ''hasOwnProperty'' d = None"
    using assms by (rule plain_lookup_method) (simp add: object_members_def)
  ultimately show ?thesis
    using False by (simp add: has_def hasOwnProperty_def map_of_eq_None_iff)
qed

subsection \<open>Cache consistency\<close>

text \<open>
  Claim C1, as the code has it. For every sequence of \<open>set\<close>, \<open>remove\<close>, \<open>getKeys\<close> and
  \<open>invalidate\<close> calls with plain keys (names that do not contain \<open>__private__\<close> and are
  no names of the prototype chain) on a new container, with caching enabled or disabled:
  every call succeeds, \<open>has(k)\<close> is true exactly for the keys \<open>k\<close> that \<open>getKeys()\<close>
  returns, \<open>getKeys()\<close> lists no key twice, and a second \<open>getKeys()\<close> returns the same
  sequence.
\<close>

theorem getKeys_matches_has:
  assumes "list_all plain_op ops"
  shows "\<exists>d. run_ops ops (new_Dictionary cache) = Inr d \<and>
             (\<forall>k. has (VStr k) d = Inr (k \<in> set (fst (getKeys d)))) \<and>
             distinct (fst (getKeys d)) \<and>
             fst (getKeys (snd (getKeys d))) = fst (getKeys d)"
proof -
  from run_ops_plain [OF assms plain_new] obtain d
    where d: "run_ops ops (new_Dictionary cache) = Inr d" "plain d" "cache_ok d"
    by blast
  have "fst (getKeys d) = Object_keys d"
    using d(3) by (rule fst_getKeys)
  moreover have "distinct (Object_keys d)"
    using d(2) by (simp add: plain_def distinct_Object_keys)
  ultimately show ?thesis
    using d(1) has_plain [OF d(2)] by (simp add: set_Object_keys getKeys_again)
qed

theorem getKeys_matches_has_witness:
  "list_all plain_op [Set (VStr ''x'') (VNum 10), GetKeys, Set (VStr ''y'') (VNum 20), Remove (VStr ''x'')] \<and>
   (\<exists>d. run_ops [Set (VStr ''x'') (VNum 10), GetKeys, Set (VStr ''y'') (VNum 20), Remove (VStr ''x'')]
           (new_Dictionary True) = Inr d \<and>
        (\<forall>k. has (VStr k) d = Inr (k \<in> set (fst (getKeys d)))) \<and>
        distinct (fst (getKeys d)) \<and>
        fst (getKeys (snd (getKeys d))) = fst (getKeys d))"
proof -
  have "list_all plain_op [Set (VStr ''x'') (VNum 10), GetKeys, Set (VStr ''y'') (VNum 20), Remove (VStr ''x'')]"
    by (simp add: plain_key_def plain_name_def class_members_def object_members_def)
  then show ?thesis
    by (intro conjI getKeys_matches_has)
qed

text \<open>
  Claim C1 as stated fails at a key that contains \<open>__private__\<close>: after
  \<open>set("x__private__", 1)\<close> the key is in \<open>getKeys()\<close>, and \<open>has("x__private__")\<close> is
  false, by the guard of lines 67-68.
\<close>

theorem getKeys_lists_rejected_key:
  "(case run_ops [Set (VStr ''x__private__'') (VNum 1)] (new_Dictionary False) of
      Inl e \<Rightarrow> False
    | Inr d \<Rightarrow> fst (getKeys d) = [''x__private__''] \<and> has (VStr ''x__private__'') d = Inr False)"
  by (simp add: call_def set_dict_def lookup_method_def new_Dictionary_def set_prop_def invalidate_def
      getKeys_def Object_keys_def is_array_index_def is_digit_def has_def)

subsection \<open>Round trip of \<open>set\<close> and \<open>get\<close>\<close>




subsection \<open>\<open>values\<close> against \<open>getKeys\<close>\<close>

text \<open>
  Claim C2 at a container with the entries \<open>a: 1\<close> and \<open>b: 2\<close>: \<open>getKeys()\<close> is
  \<open>["a", "b"]\<close> and the values stored under these keys are \<open>1\<close> and \<open>2\<close>, but
  \<open>values()\<close> reads the properties \<open>"0"\<close> and \<open>"1"\<close> and returns two times \<open>undefined\<close>.
\<close>

theorem values_reads_indices:
  "(case run_ops [Set (VStr ''a'') (VNum 1), Set (VStr ''b'') (VNum 2)] (new_Dictionary False) of
      Inl e \<Rightarrow> False
    | Inr d \<Rightarrow> fst (getKeys d) = [''a'', ''b''] \<and>
               get (VStr ''a'') d = Inr (VNum 1, d) \<and>
               get (VStr ''b'') d = Inr (VNum 2, d) \<and>
               values_dict d = Inr ([Undefined, Undefined], d))"
  by (simp add: call_def set_dict_def lookup_method_def new_Dictionary_def set_prop_def invalidate_def
      getKeys_def Object_keys_def is_array_index_def is_digit_def get_def get_prop_def
      values_dict_def class_members_def object_members_def show_nat_digit digit_char_def)

subsection \<open>Reading a key that was never set\<close>








lemma get_prop_ordinary:
  assumes "p \<noteq> ''__private__''" and "p \<notin> set class_members" and "p \<notin> set object_members"
  shows "get_prop p d = Inr (case map_of (props d) p of None \<Rightarrow> Undefined | Some v \<Rightarrow> v, d)"
proof -
  have "''length'' \<in> set class_members" "''__proto__'' \<in> set object_members"
    by (simp_all add: class_members_def object_members_def)
  with assms have "p \<noteq> ''length''" "p \<noteq> ''__proto__''" by auto
  with assms show ?thesis
    by (simp add: get_prop_def split: option.splits)
qed




subsection \<open>Early termination of \<open>each\<close>\<close>

lemma has_own_entry:
  assumes "lookup_method ''hasOwnProperty'' d = None" and "map_of (props d) key = Some v"
  shows "has (VStr key) d = Inr (visible_name key)"
  using assms by (simp add: has_def hasOwnProperty_def visible_name_def not_le)

lemma get_prop_own: "map_of (props d) key = Some v \<Longrightarrow> get_prop key d = Inr (v, d)"
  by (simp add: get_prop_def)

lemma each_loop_hidden:
  assumes "lookup_method ''has'' d = None" and "lookup_method ''hasOwnProperty'' d = None"
    and "map_of (props d) key = Some v" and "\<not> visible_name key"
  shows "each_loop cb (key # rest) (s, d) = each_loop cb rest (s, d)"
  using assms by (simp add: has_own_entry)

lemma each_loop_visible:
  assumes "lookup_method ''has'' d = None" and "lookup_method ''hasOwnProperty'' d = None"
    and "map_of (props d) key = Some v" and "visible_name key" and "f key v u = (r, u')"
  shows "each_loop (recording (observer f)) (key # rest) ((acc, u), d) =
           (if r = VBool False then Inr ((acc @ [(key, v, r)], u'), d)
            else each_loop (recording (observer f)) rest ((acc @ [(key, v, r)], u'), d))"
  using assms by (simp add: has_own_entry get_prop_own recording_def observer_def)

lemma each_loop_observer:
  assumes "lookup_method ''has'' d = None" and "lookup_method ''hasOwnProperty'' d = None"
    and "set ks \<subseteq> fst ` set (props d)"
  shows "\<exists>calls u'.
           each_loop (recording (observer f)) ks ((acc, u), d) = Inr ((acc @ calls, u'), d) \<and>
           map fst calls = take (length calls) (filter visible_name ks) \<and>
           (\<forall>i. Suc i < length calls \<longrightarrow> snd (snd (calls ! i)) \<noteq> VBool False) \<and>
           (length calls < length (filter visible_name ks) \<longrightarrow>
              calls \<noteq> [] \<and> snd (snd (last calls)) = VBool False)"
  using assms(3)
proof (induction ks arbitrary: acc u)
  case Nil
  then show ?case by simp
next
  case (Cons key rest)
  from Cons.prems have "key \<in> fst ` set (props d)" by simp
  then have "map_of (props d) key \<noteq> None" by (simp add: map_of_eq_None_iff)
  then obtain v where v: "map_of (props d) key = Some v" by blast
  from Cons.prems have rest: "set rest \<subseteq> fst ` set (props d)" by simp
  show ?case
  proof (cases "visible_name key")
    case False
    have eq: "each_loop (recording (observer f)) (key # rest) ((acc, u), d) =
                each_loop (recording (observer f)) rest ((acc, u), d)"
      by (rule each_loop_hidden [OF assms(1,2) v False])
    have flt: "filter visible_name (key # rest) = filter visible_name rest"
      using False by simp
    show ?thesis
      unfolding eq flt by (rule Cons.IH [OF rest])
  next
    case True
    obtain r u1 where f: "f key v u = (r, u1)" by (cases "f key v u")
    note unfold = each_loop_visible [where f = f and u = u and rest = rest and acc = acc,
      OF assms(1,2) v True f]
    show ?thesis
    proof (cases "r = VBool False")
      case True
      have "each_loop (recording (observer f)) (key # rest) ((acc, u), d) =
              Inr ((acc @ [(key, v, r)], u1), d)"
        using unfold True by (simp del: each_loop.simps)
      moreover have "map fst [(key, v, r)] = take (length [(key, v, r)]) (filter visible_name (key # rest))"
        using \<open>visible_name key\<close> by simp
      moreover have "\<forall>i. Suc i < length [(key, v, r)] \<longrightarrow> snd (snd ([(key, v, r)] ! i)) \<noteq> VBool False"
        by simp
      moreover have "length [(key, v, r)] < length (filter visible_name (key # rest)) \<longrightarrow>
          [(key, v, r)] \<noteq> [] \<and> snd (snd (last [(key, v, r)])) = VBool False"
        using True by simp
      ultimately show ?thesis by blast
    next
      case False
      from Cons.IH [OF rest, of "acc @ [(key, v, r)]" u1] obtain calls u' where ih:
        "each_loop (recording (observer f)) rest ((acc @ [(key, v, r)], u1), d) =
           Inr (((acc @ [(key, v, r)]) @ calls, u'), d)"
        "map fst calls = take (length calls) (filter visible_name rest)"
        "\<forall>i. Suc i < length calls \<longrightarrow> snd (snd (calls ! i)) \<noteq> VBool False"
        "length calls < length (filter visible_name rest) \<longrightarrow>
           calls \<noteq> [] \<and> snd (snd (last calls)) = VBool False"
        by blast
      let ?calls = "(key, v, r) # calls"
      have 1: "each_loop (recording (observer f)) (key # rest) ((acc, u), d) =
              Inr ((acc @ ?calls, u'), d)"
        using unfold False ih(1) by (simp del: each_loop.simps)
      have 2: "map fst ?calls = take (length ?calls) (filter visible_name (key # rest))"
        using \<open>visible_name key\<close> ih(2) by simp
      have 3: "\<forall>i. Suc i < length ?calls \<longrightarrow> snd (snd (?calls ! i)) \<noteq> VBool False"
      proof (intro allI impI)
        fix i assume "Suc i < length ?calls"
        then show "snd (snd (?calls ! i)) \<noteq> VBool False"
          using False ih(3) by (cases i) auto
      qed
      have 4: "length ?calls < length (filter visible_name (key # rest)) \<longrightarrow>
          ?calls \<noteq> [] \<and> snd (snd (last ?calls)) = VBool False"
        using \<open>visible_name key\<close> ih(4) by auto
      from 1 2 3 4 show ?thesis by blast
    qed
  qed
qed

lemma each_loop_false_last:
  assumes "each_loop (recording cb) ks ((acc, u), d) = Inr ((calls, u'), d')"
    and "list_all (\<lambda>c. snd (snd c) \<noteq> VBool False) acc"
  shows "list_all (\<lambda>c. snd (snd c) \<noteq> VBool False) (butlast calls)"
  using assms
proof (induction ks arbitrary: acc u d)
  case Nil
  then have "calls = acc" by simp
  with Nil.prems(2) show ?case by (simp add: list_all_iff) (meson in_set_butlastD)
next
  case (Cons key rest)
  show ?case
  proof (cases "map_of (props d) key = None")
    case True
    with Cons.prems(1) have "each_loop (recording cb) rest ((acc, u), d) = Inr ((calls, u'), d')"
      by simp
    then show ?thesis by (rule Cons.IH [OF _ Cons.prems(2)])
  next
    case False
    show ?thesis
    proof (cases "has (VStr key) d = Inr True \<and> lookup_method ''has'' d = None")
      case False
      with Cons.prems(1) \<open>map_of (props d) key \<noteq> None\<close>
      have "each_loop (recording cb) rest ((acc, u), d) = Inr ((calls, u'), d')"
        by (auto split: option.splits sum.splits bool.splits)
      then show ?thesis by (rule Cons.IH [OF _ Cons.prems(2)])
    next
      case True
      from Cons.prems(1) True \<open>map_of (props d) key \<noteq> None\<close>
      obtain v d1 where g: "get_prop key d = Inr (v, d1)"
        by (cases "get_prop key d") auto
      from Cons.prems(1) True g \<open>map_of (props d) key \<noteq> None\<close>
      obtain r u2 d2 where c: "cb key v (u, d1) = Inr (r, u2, d2)"
        by (cases "cb key v (u, d1)") (auto simp: recording_def)
      have rc: "recording cb key v ((acc, u), d1) = Inr (r, (acc @ [(key, v, r)], u2), d2)"
        using c by (simp add: recording_def)
      from Cons.prems(1) True g rc \<open>map_of (props d) key \<noteq> None\<close>
      have e: "(if r = VBool False then Inr ((acc @ [(key, v, r)], u2), d2)
                 else each_loop (recording cb) rest ((acc @ [(key, v, r)], u2), d2)) =
                Inr ((calls, u'), d')"
        by simp
      show ?thesis
      proof (cases "r = VBool False")
        case True
        with e have "calls = acc @ [(key, v, r)]" by simp
        with Cons.prems(2) show ?thesis by simp
      next
        case False
        with e have "each_loop (recording cb) rest ((acc @ [(key, v, r)], u2), d2) = Inr ((calls, u'), d')"
          by simp
        moreover have "list_all (\<lambda>c. snd (snd c) \<noteq> VBool False) (acc @ [(key, v, r)])"
          using Cons.prems(2) False by simp
        ultimately show ?thesis by (rule Cons.IH)
      qed
    qed
  qed
qed

text \<open>
  Claim C8. On a container whose methods \<open>has\<close> and \<open>hasOwnProperty\<close> are not hidden by
  entries, \<open>each\<close> with a callback that leaves the container alone returns, and the calls
  it made are these: it visited the visible keys in order, from the first one on; no call
  but the last one returned \<open>false\<close>; and it stopped before the last visible key only
  because the last call returned \<open>false\<close>. So a callback that returns \<open>false\<close> at its
  \<open>N\<close>th call is called \<open>N\<close> times, and every other returned value, \<open>undefined\<close> too,
  lets the loop go on. The alias \<open>forEach\<close> does the same where \<open>each\<close> is not hidden.
  Whatever the callback does, to the container too, a run of \<open>each\<close> that returns has
  made no call after one that returned \<open>false\<close>.
\<close>

theorem each_early_termination:
  assumes "lookup_method ''has'' d = None" and "lookup_method ''hasOwnProperty'' d = None"
  shows "(\<exists>calls u'.
           each (recording (observer f)) (([], u), d) = Inr ((calls, u'), d) \<and>
           map fst calls = take (length calls) (visible d) \<and>
           (\<forall>i. Suc i < length calls \<longrightarrow> snd (snd (calls ! i)) \<noteq> VBool False) \<and>
           (length calls < length (visible d) \<longrightarrow>
              calls \<noteq> [] \<and> snd (snd (last calls)) = VBool False) \<and>
           (lookup_method ''each'' d = None \<longrightarrow>
              forEach (recording (observer f)) (([], u), d) = Inr ((calls, u'), d))) \<and>
         (each (recording cb) (([], ini), d) = Inr ((seen, fin), d') \<longrightarrow>
            list_all (\<lambda>c. snd (snd c) \<noteq> VBool False) (butlast seen))"
proof (rule conjI)
  show "\<exists>calls u'.
           each (recording (observer f)) (([], u), d) = Inr ((calls, u'), d) \<and>
           map fst calls = take (length calls) (visible d) \<and>
           (\<forall>i. Suc i < length calls \<longrightarrow> snd (snd (calls ! i)) \<noteq> VBool False) \<and>
           (length calls < length (visible d) \<longrightarrow>
              calls \<noteq> [] \<and> snd (snd (last calls)) = VBool False) \<and>
           (lookup_method ''each'' d = None \<longrightarrow>
              forEach (recording (observer f)) (([], u), d) = Inr ((calls, u'), d))"
    using each_loop_observer [OF assms, of "Object_keys d" f "[]" u]
    by (auto simp: each_def forEach_def visible_def set_Object_keys)
next
  show "each (recording cb) (([], ini), d) = Inr ((seen, fin), d') \<longrightarrow>
          list_all (\<lambda>c. snd (snd c) \<noteq> VBool False) (butlast seen)"
    using each_loop_false_last [of cb "Object_keys d" "[]" ini d seen fin d']
    by (simp add: each_def)
qed

lemma abc_reached:
  "run_ops [Set (VStr ''a'') (VNum 1), Set (VStr ''b'') (VNum 2), Set (VStr ''c'') (VNum 3)]
     (new_Dictionary False) = Inr abc"
  by (simp add: abc_def call_def set_dict_def lookup_method_def new_Dictionary_def set_prop_def
      invalidate_def)

lemma Object_keys_abc: "Object_keys abc = [''a'', ''b'', ''c'']"
  by (simp add: abc_def Object_keys_def is_array_index_def is_digit_def)

theorem each_early_termination_witness:
  "lookup_method ''has'' abc = None \<and> lookup_method ''hasOwnProperty'' abc = None \<and>
   (\<exists>calls u'.
      each (recording (observer (stop_at 2))) (([], 0), abc) = Inr ((calls, u'), abc) \<and>
      map fst calls = take (length calls) (visible abc) \<and>
      (\<forall>i. Suc i < length calls \<longrightarrow> snd (snd (calls ! i)) \<noteq> VBool False) \<and>
      (length calls < length (visible abc) \<longrightarrow>
         calls \<noteq> [] \<and> snd (snd (last calls)) = VBool False) \<and>
      (lookup_method ''each'' abc = None \<longrightarrow>
         forEach (recording (observer (stop_at 2))) (([], 0), abc) = Inr ((calls, u'), abc))) \<and>
   each (recording (observer (stop_at 2))) (([], 0), abc) =
     Inr (([(''a'', VNum 1, Undefined), (''b'', VNum 2, VBool False)], 2), abc) \<and>
   list_all (\<lambda>c. snd (snd c) \<noteq> VBool False)
     (butlast [(''a'', VNum 1, Undefined), (''b'', VNum 2, VBool False)]) \<and>
   size_dict abc = Inr (3, abc)"
proof -
  have h1: "lookup_method ''has'' abc = None" and h2: "lookup_method ''hasOwnProperty'' abc = None"
    by (simp_all add: lookup_method_def abc_def)
  have ev: "each (recording (observer (stop_at 2))) (([], 0), abc) =
     Inr (([(''a'', VNum 1, Undefined), (''b'', VNum 2, VBool False)], 2), abc)"
    by (simp add: each_def Object_keys_abc)
       (simp add: abc_def lookup_method_def has_def hasOwnProperty_def get_prop_def
          recording_def observer_def stop_at_def)
  have "cacheKeys (inner abc) = False" and "lookup_method ''getKeys'' abc = None"
    by (simp_all add: lookup_method_def abc_def)
  then have sz: "size_dict abc = Inr (3, abc)"
    by (simp add: size_dict_def getKeys_def Object_keys_abc)
  note inst = each_early_termination [OF h1 h2, where f = "stop_at 2" and u = 0
      and cb = "observer (stop_at 2)" and ini = 0
      and seen = "[(''a'', VNum 1, Undefined), (''b'', VNum 2, VBool False)]"
      and fin = 2 and d' = abc]
  have gen: "list_all (\<lambda>c. snd (snd c) \<noteq> VBool False)
     (butlast [(''a'', VNum 1, Undefined), (''b'', VNum 2, VBool False)])"
    by (rule mp [OF conjunct2 [OF inst] ev])
  show ?thesis
    by (intro conjI h1 h2 ev sz gen conjunct1 [OF inst])
qed

subsection \<open>Events of a traversal\<close>

lemma events_finish: "events (finish cbComplete w) = events w @ [notification cbComplete]"
  by (simp add: finish_def notification_def split: option.splits)

lemma expected_notification: "expected cbComplete ks (notification cbComplete)"
  by (simp add: notification_def split: option.splits)

lemma events_cbNext:
  "events (cbNext cbComplete ks w) = events w \<or>
   events (cbNext cbComplete ks w) = events w @ [notification cbComplete]"
  by (simp add: cbNext_def events_finish)

lemma events_perform:
  assumes "perform cbComplete ks acts w = Inr w'"
  shows "\<exists>n. events w' = events w @ replicate n (notification cbComplete)"
  using assms
proof (induction acts arbitrary: w)
  case Nil
  then have "events w' = events w @ replicate 0 (notification cbComplete)" by simp
  then show ?case by blast
next
  case (Cons a acts)
  show ?case
  proof (cases a)
    case Advance
    with Cons.prems have "perform cbComplete ks acts (cbNext cbComplete ks w) = Inr w'"
      by simp
    from Cons.IH [OF this] obtain n where
      n: "events w' = events (cbNext cbComplete ks w) @ replicate n (notification cbComplete)"
      by blast
    from events_cbNext [of cbComplete ks w] show ?thesis
    proof
      assume "events (cbNext cbComplete ks w) = events w"
      with n show ?thesis by auto
    next
      assume "events (cbNext cbComplete ks w) = events w @ [notification cbComplete]"
      with n have "events w' = events w @ replicate (Suc n) (notification cbComplete)"
        by simp
      then show ?thesis by blast
    qed
  next
    case (Mutate f)
    with Cons.prems obtain d' where "perform cbComplete ks acts (w\<lparr>dict := d'\<rparr>) = Inr w'"
      by (auto split: sum.splits)
    from Cons.IH [OF this] show ?thesis by simp
  qed
qed

lemma events_step:
  assumes "step cbIterator cbComplete ks w = Inr w'"
  shows "\<exists>es n. events w' = events w @ es @ replicate n (notification cbComplete) \<and>
           (if counter w < length ks then \<exists>v. es = [Visited (ks ! counter w) v] else es = [])"
proof (cases "counter w < length ks")
  case False
  with assms have "events w' = events w @ [] @ replicate 1 (notification cbComplete)"
    by (auto simp: step_def events_finish)
  with False show ?thesis by (intro exI [of _ "[]"] exI [of _ 1]) simp
next
  case True
  with assms obtain v d acts r u w1 where
    g: "get_prop (ks ! counter w) (dict w) = Inr (v, d)" and
    c: "cbIterator (ks ! counter w) v (user w) d = (acts, r, u)" and
    p: "perform cbComplete ks acts
          (w\<lparr>dict := d, user := u, counter := counter w + 1,
             events := events w @ [Visited (ks ! counter w) v]\<rparr>) = Inr w1" and
    w': "w' = (if loose_eq_false r then finish cbComplete w1 else w1)"
    by (auto simp: step_def split: sum.splits prod.splits if_splits)
  from events_perform [OF p] obtain n where
    n: "events w1 = (events w @ [Visited (ks ! counter w) v]) @ replicate n (notification cbComplete)"
    by auto
  have "events w' = events w1 @ replicate (if loose_eq_false r then 1 else 0) (notification cbComplete)"
    using w' by (simp add: events_finish)
  with n have "events w' = events w @ [Visited (ks ! counter w) v] @
      replicate (n + (if loose_eq_false r then 1 else 0)) (notification cbComplete)"
    by (simp add: replicate_add)
  with True show ?thesis
    by (intro exI [of _ "[Visited (ks ! counter w) v]"]
              exI [of _ "n + (if loose_eq_false r then 1 else 0)"]) simp
qed

lemma expected_step:
  assumes "step cbIterator cbComplete ks w = Inr w'"
    and "list_all (expected cbComplete ks) (events w)"
  shows "list_all (expected cbComplete ks) (events w')"
proof -
  from events_step [OF assms(1)] obtain es n where
    e: "events w' = events w @ es @ replicate n (notification cbComplete)" and
    es: "if counter w < length ks then \<exists>v. es = [Visited (ks ! counter w) v] else es = []"
    by blast
  from es have "list_all (expected cbComplete ks) es"
    by (auto split: if_splits)
  with e assms(2) show ?thesis
    by (auto simp: list_all_iff expected_notification)
qed

lemma expected_run:
  assumes "run cbIterator cbComplete ks w = Inr w'"
    and "list_all (expected cbComplete ks) (events w)"
  shows "list_all (expected cbComplete ks) (events w')"
  using assms
proof (induction cbIterator cbComplete ks w rule: run.induct)
  case (1 cbIterator cbComplete ks w)
  show ?case
  proof (cases "ticks w = 0")
    case True
    with "1.prems" show ?thesis by (simp add: run.simps)
  next
    case False
    with "1.prems"(1) obtain w1 where
      s: "step cbIterator cbComplete ks (w\<lparr>ticks := ticks w - 1\<rparr>) = Inr w1" and
      r: "run cbIterator cbComplete ks w1 = Inr w'"
      by (subst (asm) run.simps) (auto split: sum.splits)
    from expected_step [OF s] "1.prems"(2)
    have "list_all (expected cbComplete ks) (events w1)" by simp
    from "1.IH" [OF False s r this] show ?thesis .
  qed
qed

lemma asyncForEach_start:
  assumes "asyncForEach cbIterator cbComplete s = Inr (ks, w)"
  shows "ks = fst (getKeys (snd s)) \<and>
         step cbIterator cbComplete ks
           \<lparr>dict = snd (getKeys (snd s)), user = fst s, counter = 0, ticks = 0, events = []\<rparr> = Inr w"
  using assms
  by (auto simp: asyncForEach_def split: option.splits sum.splits prod.splits)

subsection \<open>At most one notification\<close>







subsection \<open>The two notifications of \<open>asyncForEach\<close>\<close>

lemma expected_traversal:
  assumes "asyncForEach cbIterator cbComplete s = Inr (ks, w)"
    and "run cbIterator cbComplete ks w = Inr w'"
  shows "list_all (expected cbComplete ks) (events w')"
proof -
  let ?w0 = "\<lparr>dict = snd (getKeys (snd s)), user = fst s, counter = 0, ticks = 0, events = []\<rparr>"
  have s: "step cbIterator cbComplete ks ?w0 = Inr w"
    by (rule asyncForEach_start [OF assms(1), THEN conjunct2])
  have "list_all (expected cbComplete ks) (events ?w0)" by simp
  with s have "list_all (expected cbComplete ks) (events w)" by (rule expected_step)
  with assms(2) show ?thesis by (rule expected_run)
qed




lemma getKeys_abc: "getKeys abc = ([''a'', ''b'', ''c''], abc)"
proof -
  have "cacheKeys (inner abc) = False" by (simp add: abc_def)
  then show ?thesis by (simp add: getKeys_def Object_keys_abc)
qed

lemma abc_methods: "lookup_method ''getKeys'' abc = None"
  by (simp add: lookup_method_def abc_def)

lemma abc_values:
  "get_prop ''a'' abc = Inr (VNum 1, abc)" "get_prop ''b'' abc = Inr (VNum 2, abc)"
  "get_prop ''c'' abc = Inr (VNum 3, abc)"
  by (simp_all add: get_prop_def abc_def)




subsection \<open>The first step\<close>




subsection \<open>Ending a traversal by the returned value\<close>

lemma run_idle: "ticks w = 0 \<Longrightarrow> run cbIterator cbComplete ks w = Inr w"
  by (simp add: run.simps)

lemma dict_finish: "dict (finish cbComplete w) = dict w"
  by (simp add: finish_def split: option.splits)




subsection \<open>Emptying a container\<close>

lemma remove_dict_exact:
  assumes "plain d" and "plain_name key"
  shows "remove_dict (VStr key) d = Inr ((invalidate d)\<lparr>props := AList.delete key (props d)\<rparr>)"
proof -
  from assms(2) reserved_not_plain have np: "key \<noteq> ''__private__''" by auto
  have m: "lookup_method ''invalidate'' d = None"
    using assms(1) by (rule plain_lookup_method) (simp add: class_members_def)
  from np m show ?thesis
    by (simp add: remove_dict_def delete_prop_def props_invalidate)
qed

lemma removed_plain:
  assumes "plain d"
  shows "plain ((invalidate d)\<lparr>props := AList.delete key (props d)\<rparr>)"
    and "cache_ok ((invalidate d)\<lparr>props := AList.delete key (props d)\<rparr>)"
proof -
  have "plain ((invalidate d)\<lparr>props := AList.delete key (props (invalidate d))\<rparr>)"
    using assms by (intro plain_delete) (simp add: plain_invalidate)
  then show "plain ((invalidate d)\<lparr>props := AList.delete key (props d)\<rparr>)"
    by (simp add: props_invalidate)
  show "cache_ok ((invalidate d)\<lparr>props := AList.delete key (props d)\<rparr>)"
    by (simp add: cache_ok_def invalidate_def)
qed

lemma delete_as_filter: "AList.delete key ps = filter (\<lambda>p. fst p \<noteq> key) ps"
  by (induction ps) auto

lemma get_prop_plain:
  assumes "plain_name key"
  shows "get_prop key d = Inr (case map_of (props d) key of None \<Rightarrow> Undefined | Some v \<Rightarrow> v, d)"
  using assms reserved_not_plain
  by (intro get_prop_ordinary) (auto simp: plain_name_def)

lemma step_asyncEmpty:
  assumes "plain (dict w)" and "counter w < length ks" and "plain_name (ks ! counter w)"
    and "ticks w = 0"
  shows "\<exists>w1 v. step asyncEmpty_callback None ks w = Inr w1 \<and>
           dict w1 = (invalidate (dict w))\<lparr>props := AList.delete (ks ! counter w) (props (dict w))\<rparr> \<and>
           counter w1 = counter w + 1 \<and> user w1 = user w \<and>
           (if counter w + 1 < length ks
            then ticks w1 = 1 \<and> events w1 = events w @ [Visited (ks ! counter w) v]
            else ticks w1 = 0 \<and> events w1 = events w @ [Visited (ks ! counter w) v, Resolved])"
proof -
  let ?key = "ks ! counter w"
  let ?v = "case map_of (props (dict w)) ?key of None \<Rightarrow> Undefined | Some v \<Rightarrow> v"
  have g: "get_prop ?key (dict w) = Inr (?v, dict w)"
    using assms(3) by (rule get_prop_plain)
  have m: "lookup_method ''remove'' (dict w) = None"
    using assms(1) by (rule plain_lookup_method) (simp add: class_members_def)
  have r: "remove_dict (VStr ?key) (dict w) =
             Inr ((invalidate (dict w))\<lparr>props := AList.delete ?key (props (dict w))\<rparr>)"
    using assms(1,3) by (rule remove_dict_exact)
  show ?thesis
    using assms(2,4) g m r
    by (simp add: step_def asyncEmpty_callback_def cbNext_def finish_def)
qed

lemma filter_drop_step:
  assumes "c < length ks"
  shows "filter (\<lambda>p. fst p \<notin> set (drop (Suc c) ks)) (AList.delete (ks ! c) ps) =
         filter (\<lambda>p. fst p \<notin> set (drop c ks)) ps"
proof -
  from assms have "drop c ks = ks ! c # drop (Suc c) ks"
    by (simp add: Cons_nth_drop_Suc)
  then show ?thesis
    by (auto simp: delete_as_filter intro: filter_cong)
qed

lemma drain_asyncEmpty:
  assumes "list_all plain_name ks"
  shows "plain (dict w) \<Longrightarrow> ticks w = 0 \<Longrightarrow> counter w < length ks \<Longrightarrow>
     \<exists>w1 w'. step asyncEmpty_callback None ks w = Inr w1 \<and>
        run asyncEmpty_callback None ks w1 = Inr w' \<and>
        props (dict w') = filter (\<lambda>p. fst p \<notin> set (drop (counter w) ks)) (props (dict w)) \<and>
        plain (dict w') \<and> cache_ok (dict w') \<and> user w' = user w \<and> ticks w' = 0 \<and>
        counter w' = length ks \<and>
        (\<exists>vs. events w' = events w @ vs @ [Resolved] \<and> list_all is_visit vs)"
proof (induction "length ks - counter w" arbitrary: w)
  case 0
  then show ?case by simp
next
  case (Suc n)
  let ?key = "ks ! counter w"
  let ?d = "(invalidate (dict w))\<lparr>props := AList.delete ?key (props (dict w))\<rparr>"
  from assms Suc.prems(3) have pk: "plain_name ?key"
    by (simp add: list_all_length)
  from step_asyncEmpty [OF Suc.prems(1) Suc.prems(3) pk Suc.prems(2)]
  obtain w1 v where w1: "step asyncEmpty_callback None ks w = Inr w1"
    "dict w1 = ?d" "counter w1 = counter w + 1" "user w1 = user w"
    "if counter w + 1 < length ks
     then ticks w1 = 1 \<and> events w1 = events w @ [Visited ?key v]
     else ticks w1 = 0 \<and> events w1 = events w @ [Visited ?key v, Resolved]"
    by blast
  have pd: "plain ?d" "cache_ok ?d"
    using Suc.prems(1) by (rule removed_plain)+
  have fd: "filter (\<lambda>p. fst p \<notin> set (drop (Suc (counter w)) ks)) (props ?d) =
            filter (\<lambda>p. fst p \<notin> set (drop (counter w) ks)) (props (dict w))"
    using filter_drop_step [OF Suc.prems(3)] by simp
  show ?case
  proof (cases "counter w + 1 < length ks")
    case True
    let ?w2 = "w1\<lparr>ticks := ticks w1 - 1\<rparr>"
    from True w1 have t1: "ticks w1 = 1" and e1: "events w1 = events w @ [Visited ?key v]"
      by simp_all
    have n: "n = length ks - counter ?w2" using Suc.hyps(2) w1(3) by simp
    have p2: "plain (dict ?w2)" using pd(1) w1(2) by simp
    have t2: "ticks ?w2 = 0" using t1 by simp
    have c2: "counter ?w2 < length ks" using True w1(3) by simp
    from Suc.hyps(1) [OF n p2 t2 c2] obtain w3 w' vs where ih:
      "step asyncEmpty_callback None ks ?w2 = Inr w3"
      "run asyncEmpty_callback None ks w3 = Inr w'"
      "props (dict w') = filter (\<lambda>p. fst p \<notin> set (drop (counter ?w2) ks)) (props (dict ?w2))"
      "plain (dict w')" "cache_ok (dict w')" "user w' = user ?w2" "ticks w' = 0"
      "counter w' = length ks"
      "events w' = events ?w2 @ vs @ [Resolved]" "list_all is_visit vs"
      by blast
    have r: "run asyncEmpty_callback None ks w1 = Inr w'"
      using t1 ih(1,2) by (subst run.simps) simp
    have pr: "props (dict w') = filter (\<lambda>p. fst p \<notin> set (drop (counter w) ks)) (props (dict w))"
      using ih(3) w1(2,3) fd by simp
    have ev: "events w' = events w @ (Visited ?key v # vs) @ [Resolved]"
      using ih(9) e1 by simp
    have "list_all is_visit (Visited ?key v # vs)" using ih(10) by simp
    with ev have "\<exists>vs. events w' = events w @ vs @ [Resolved] \<and> list_all is_visit vs"
      by blast
    with w1(1) r pr ih(4,5,7,8) ih(6) w1(4) show ?thesis by auto
  next
    case False
    with w1 have t1: "ticks w1 = 0" and e1: "events w1 = events w @ [Visited ?key v, Resolved]"
      by simp_all
    have r: "run asyncEmpty_callback None ks w1 = Inr w1"
      using t1 by (rule run_idle)
    from False Suc.prems(3) have cl: "counter w1 = length ks" using w1(3) by simp
    from False Suc.prems(3) have "drop (Suc (counter w)) ks = []" by simp
    with fd have pr: "props (dict w1) = filter (\<lambda>p. fst p \<notin> set (drop (counter w) ks)) (props (dict w))"
      using w1(2) by simp
    have "events w1 = events w @ [Visited ?key v] @ [Resolved]" "list_all is_visit [Visited ?key v]"
      using e1 by simp_all
    then have "\<exists>vs. events w1 = events w @ vs @ [Resolved] \<and> list_all is_visit vs"
      by blast
    with w1(1) r pr pd w1(2,4) t1 cl show ?thesis by auto
  qed
qed

lemma plain_visible: "plain_name key \<Longrightarrow> visible_name key"
  by (simp add: plain_name_def visible_name_def)

lemma each_loop_empty:
  assumes "list_all plain_name ks" and "plain d" and "cache_ok d"
  shows "\<exists>d'. each_loop empty_callback ks ((), d) = Inr ((), d') \<and>
              props d' = filter (\<lambda>p. fst p \<notin> set ks) (props d) \<and> plain d' \<and> cache_ok d'"
  using assms
proof (induction ks arbitrary: d)
  case Nil
  then show ?case by simp
next
  case (Cons key rest)
  from Cons.prems(1) have pk: "plain_name key" and pr: "list_all plain_name rest"
    by simp_all
  show ?case
  proof (cases "map_of (props d) key")
    case None
    then have "key \<notin> fst ` set (props d)" by (simp add: map_of_eq_None_iff)
    then have f: "filter (\<lambda>p. fst p \<notin> set (key # rest)) (props d) =
                  filter (\<lambda>p. fst p \<notin> set rest) (props d)"
      by (auto intro: filter_cong)
    have "each_loop empty_callback (key # rest) ((), d) = each_loop empty_callback rest ((), d)"
      using None by simp
    with Cons.IH [OF pr Cons.prems(2,3)] f show ?thesis
      by (simp del: each_loop.simps)
  next
    case (Some v)
    let ?d = "(invalidate d)\<lparr>props := AList.delete key (props d)\<rparr>"
    have m: "lookup_method ''has'' d = None" "lookup_method ''hasOwnProperty'' d = None"
      "lookup_method ''remove'' d = None"
      using Cons.prems(2)
      by (auto intro!: plain_lookup_method simp: class_members_def object_members_def)
    have h: "has (VStr key) d = Inr True"
      using has_own_entry [OF m(2) Some] plain_visible [OF pk] by simp
    have r: "remove_dict (VStr key) d = Inr ?d"
      using Cons.prems(2) pk by (rule remove_dict_exact)
    have e: "each_loop empty_callback (key # rest) ((), d) = each_loop empty_callback rest ((), ?d)"
      using Some m h r by (simp add: get_prop_own empty_callback_def)
    have pd: "plain ?d" "cache_ok ?d"
      using Cons.prems(2) by (rule removed_plain)+
    have f: "filter (\<lambda>p. fst p \<notin> set rest) (props ?d) =
             filter (\<lambda>p. fst p \<notin> set (key # rest)) (props d)"
      by (auto simp: delete_as_filter intro: filter_cong)
    from Cons.IH [OF pr pd] e f show ?thesis
      by (simp del: each_loop.simps)
  qed
qed

lemma plain_keys: "plain d \<Longrightarrow> list_all plain_name (Object_keys d)"
  by (simp add: plain_def list_all_iff set_Object_keys)

lemma filter_all_keys: "filter (\<lambda>p. fst p \<notin> set (Object_keys d)) (props d) = []"
  by (auto simp: set_Object_keys filter_empty_conv)

lemma empty_dict_plain:
  assumes "plain d" and "cache_ok d"
  shows "\<exists>d'. empty_dict d = Inr d' \<and> props d' = [] \<and> cache_ok d'"
proof -
  have m: "lookup_method ''forEach'' d = None" "lookup_method ''each'' d = None"
    using assms(1) by (auto intro!: plain_lookup_method simp: class_members_def)
  from each_loop_empty [OF plain_keys [OF assms(1)] assms] obtain d' where
    "each_loop empty_callback (Object_keys d) ((), d) = Inr ((), d')"
    "props d' = filter (\<lambda>p. fst p \<notin> set (Object_keys d)) (props d)" "cache_ok d'"
    by blast
  with m show ?thesis
    by (simp add: empty_dict_def forEach_def each_def filter_all_keys)
qed

lemma size_emptied:
  assumes "props d = []" and "cache_ok d"
  shows "size_dict d = Inr (0, snd (getKeys d))"
proof -
  have "lookup_method ''getKeys'' d = None" using assms(1) by (simp add: lookup_method_def)
  moreover have "fst (getKeys d) = []"
    using fst_getKeys [OF assms(2)] length_Object_keys [of d] assms(1) by simp
  ultimately show ?thesis
    by (cases "getKeys d") (simp add: size_dict_def)
qed

text \<open>
  Claim C7, as the code has it. For every plain container with a sound cache of keys
  (every container that \<open>set\<close> and \<open>remove\<close> calls with plain keys lead to) and no other
  mutation during the traversal: \<open>asyncEmpty\<close> completes; when its notification is
  given, once, after the promise of the traversal was resolved, no entry is left and
  \<open>size()\<close> is \<open>0\<close>; and \<open>empty()\<close> leaves no entry and \<open>size() = 0\<close> as well.
\<close>

theorem asyncEmpty_removes_all:
  assumes "plain d" and "cache_ok d"
  shows "\<exists>w d'. asyncEmpty cbComplete (u, d) = Inr w \<and>
           props (dict w) = [] \<and> size_dict (dict w) = Inr (0, snd (getKeys (dict w))) \<and>
           (\<exists>vs. events w = vs @ [Resolved, notification cbComplete] \<and> list_all is_visit vs) \<and>
           empty_dict d = Inr d' \<and> props d' = [] \<and> size_dict d' = Inr (0, snd (getKeys d'))"
proof -
  let ?ks = "Object_keys d"
  obtain d1 where k: "getKeys d = (?ks, d1)"
    using fst_getKeys [OF assms(2)] by (cases "getKeys d") simp
  let ?w0 = "\<lparr>dict = d1, user = u, counter = 0, ticks = 0, events = []\<rparr>"
  have m: "lookup_method ''asyncForEach'' d = None" "lookup_method ''getKeys'' d = None"
    using assms(1) by (auto intro!: plain_lookup_method simp: class_members_def)
  have p1: "plain d1" "cache_ok d1" "props d1 = props d"
    using assms plain_getKeys [of d] cache_ok_getKeys [of d] props_getKeys [of d]
    by (simp_all add: k)
  have "\<exists>w1 w'. step asyncEmpty_callback None ?ks ?w0 = Inr w1 \<and>
          run asyncEmpty_callback None ?ks w1 = Inr w' \<and>
          props (dict w') = [] \<and> cache_ok (dict w') \<and>
          (\<exists>vs. events w' = vs @ [Resolved] \<and> list_all is_visit vs)"
  proof (cases "?ks = []")
    case True
    then have "props d = []" using length_Object_keys [of d] by simp
    with True p1 show ?thesis
      by (simp add: step_def finish_def run_idle)
  next
    case False
    from drain_asyncEmpty [OF plain_keys [OF assms(1)], of ?w0] False p1
    show ?thesis
      by (auto simp: filter_all_keys)
  qed
  then obtain w1 w' vs where t:
    "step asyncEmpty_callback None ?ks ?w0 = Inr w1"
    "run asyncEmpty_callback None ?ks w1 = Inr w'"
    "props (dict w') = []" "cache_ok (dict w')"
    "events w' = vs @ [Resolved]" "list_all is_visit vs"
    by blast
  have a: "asyncEmpty cbComplete (u, d) = Inr (finish cbComplete w')"
    using m k t(1,2,5) by (simp add: asyncEmpty_def asyncForEach_def)
  have "events (finish cbComplete w') = vs @ [Resolved, notification cbComplete]"
    using t(5) by (simp add: events_finish)
  with t(6) have e: "\<exists>vs. events (finish cbComplete w') = vs @ [Resolved, notification cbComplete] \<and>
      list_all is_visit vs"
    by blast
  from empty_dict_plain [OF assms] obtain d' where
    d': "empty_dict d = Inr d'" "props d' = []" "cache_ok d'"
    by blast
  from a e t(3,4) d' show ?thesis
    by (auto simp: dict_finish size_emptied)
qed

lemma five_reached:
  "run_ops [Set (VStr ''a'') (VNum 1), Set (VStr ''b'') (VNum 2), Set (VStr ''c'') (VNum 3),
            Set (VStr ''d'') (VNum 4), Set (VStr ''e'') (VNum 5)] (new_Dictionary False) =
   Inr five"
  by (simp add: five_def call_def set_dict_def lookup_method_def new_Dictionary_def set_prop_def
      invalidate_def)

lemma five_plain: "plain five" "cache_ok five"
proof -
  have "list_all plain_op [Set (VStr ''a'') (VNum 1), Set (VStr ''b'') (VNum 2),
      Set (VStr ''c'') (VNum 3), Set (VStr ''d'') (VNum 4), Set (VStr ''e'') (VNum 5)]"
    by (simp add: plain_key_def plain_name_def class_members_def object_members_def)
  from run_ops_plain [OF this plain_new, of False] five_reached
  show "plain five" "cache_ok five" by simp_all
qed

lemma size_five: "size_dict five = Inr (5, five)"
proof -
  have "cacheKeys (inner five) = False" "lookup_method ''getKeys'' five = None"
    "length (props five) = 5"
    by (simp_all add: five_def lookup_method_def)
  then show ?thesis
    by (simp add: size_dict_def getKeys_def length_Object_keys)
qed

theorem asyncEmpty_removes_all_witness:
  "plain five \<and> cache_ok five \<and> size_dict five = Inr (5, five) \<and>
   (\<exists>w d'. asyncEmpty (Some id) ((), five) = Inr w \<and>
      props (dict w) = [] \<and> size_dict (dict w) = Inr (0, snd (getKeys (dict w))) \<and>
      (\<exists>vs. events w = vs @ [Resolved, notification (Some (id :: unit \<Rightarrow> unit))] \<and>
            list_all is_visit vs) \<and>
      empty_dict five = Inr d' \<and> props d' = [] \<and> size_dict d' = Inr (0, snd (getKeys d')))"
  by (intro conjI five_plain size_five asyncEmpty_removes_all)

text \<open>
  Claim C7 as stated fails at a container that holds a key with \<open>__private__\<close> in its
  name: \<open>asyncEmpty\<close> goes through \<open>getKeys()\<close> and removes every entry, \<open>empty()\<close> goes
  through \<open>each\<close>, which skips the keys that \<open>has\<close> rejects, and leaves that entry, so
  that \<open>size()\<close> is \<open>1\<close> after it.
\<close>

theorem empty_keeps_rejected_key:
  "(case run_ops [Set (VStr ''a'') (VNum 1), Set (VStr ''x__private__'') (VNum 2)]
           (new_Dictionary False) of
      Inl e \<Rightarrow> False
    | Inr d \<Rightarrow>
        (case asyncEmpty None ((), d) of Inl e \<Rightarrow> False | Inr w \<Rightarrow> props (dict w) = []) \<and>
        (case empty_dict d of
           Inl e \<Rightarrow> False
         | Inr d' \<Rightarrow> props d' = [(''x__private__'', VNum 2)] \<and> size_dict d' = Inr (1, d')))"
proof -
  let ?d = "\<lparr>props = [(''a'', VNum 1), (''x__private__'', VNum 2)],
             inner = \<lparr>cacheKeys = False, invalidateKeys = True, keys = None\<rparr>\<rparr>"
  let ?d' = "\<lparr>props = [(''x__private__'', VNum 2)],
             inner = \<lparr>cacheKeys = False, invalidateKeys = True, keys = None\<rparr>\<rparr>"
  have r: "run_ops [Set (VStr ''a'') (VNum 1), Set (VStr ''x__private__'') (VNum 2)]
           (new_Dictionary False) = Inr ?d"
    by (simp add: call_def set_dict_def lookup_method_def new_Dictionary_def set_prop_def invalidate_def)
  have k: "Object_keys ?d = [''a'', ''x__private__'']" "Object_keys ?d' = [''x__private__'']"
    by (simp_all add: Object_keys_def is_array_index_def is_digit_def)
  have e: "empty_dict ?d = Inr ?d'"
    by (simp add: empty_dict_def forEach_def each_def k lookup_method_def has_def
        hasOwnProperty_def get_prop_def empty_callback_def remove_dict_def delete_prop_def
        invalidate_def)
  have s: "size_dict ?d' = Inr (1, ?d')"
    by (simp add: size_dict_def getKeys_def k lookup_method_def)
  have a: "case asyncEmpty None ((), ?d) of Inl e \<Rightarrow> False | Inr w \<Rightarrow> props (dict w) = []"
    by (simp add: asyncEmpty_def asyncForEach_def getKeys_def k lookup_method_def
        step_def run.simps get_prop_def asyncEmpty_callback_def
        remove_dict_def delete_prop_def invalidate_def cbNext_def finish_def
        class_members_def object_members_def)
  from r e s a show ?thesis by simp
qed

subsection \<open>The reserved field stays hidden\<close>

lemma set_prop_keys:
  assumes "set_prop p v d = Inr d'"
  shows "fst ` set (props d') = insert p (fst ` set (props d)) \<or>
         fst ` set (props d') = fst ` set (props d)"
proof -
  from assms have "props d' = AList.update p v (props d) \<or> props d' = props d"
    by (auto simp: set_prop_def split: if_splits)
  then show ?thesis
  proof
    assume "props d' = AList.update p v (props d)"
    then have "fst ` set (props d') = insert p (fst ` set (props d))"
      by (simp add: dom_update)
    then show ?thesis ..
  next
    assume "props d' = props d"
    then show ?thesis by simp
  qed
qed

lemma member_differs: "x \<in> A \<Longrightarrow> q \<notin> A \<Longrightarrow> x \<noteq> q"
  by auto

lemma set_prop_keeps_out:
  assumes "set_prop p v d = Inr d'" and "q \<notin> fst ` set (props d)" and "p \<noteq> q"
  shows "q \<notin> fst ` set (props d')"
  using set_prop_keys [OF assms(1)] assms(2,3) by auto

lemma set_prop_hidden:
  assumes "set_prop p v d = Inr d'" and "''__private__'' \<notin> fst ` set (props d)"
  shows "''__private__'' \<notin> fst ` set (props d')"
proof -
  have "p \<noteq> ''__private__''"
  proof (cases "map_of (props d) p = None")
    case True
    with assms(1) show ?thesis
      by (auto simp: set_prop_def split: if_splits)
  next
    case False
    then have "p \<in> fst ` set (props d)" by (simp add: map_of_eq_None_iff)
    then show ?thesis using assms(2) by (rule member_differs)
  qed
  with assms show ?thesis by (rule set_prop_keeps_out)
qed

lemma set_prop_inner: "set_prop p v d = Inr d' \<Longrightarrow> inner d' = inner d"
  by (auto simp: set_prop_def split: if_splits)

lemma delete_prop_keeps_out:
  assumes "delete_prop p d = Inr d'" and "q \<notin> fst ` set (props d)"
  shows "q \<notin> fst ` set (props d')"
proof -
  from assms(1) have "props d' = AList.delete p (props d)"
    by (auto simp: delete_prop_def split: if_splits)
  with assms(2) dom_delete_subset [of p "props d"] show ?thesis by auto
qed

lemma delete_prop_hidden:
  assumes "delete_prop p d = Inr d'" and "''__private__'' \<notin> fst ` set (props d)"
  shows "''__private__'' \<notin> fst ` set (props d')"
  using assms by (rule delete_prop_keeps_out)

lemma delete_prop_inner: "delete_prop p d = Inr d' \<Longrightarrow> inner d' = inner d"
  by (auto simp: delete_prop_def split: if_splits)

lemma apply_op_hidden:
  assumes "apply_op x d = Inr d'" and "hidden d"
  shows "hidden d'"
proof (cases x)
  case (Set key v)
  with assms(1) have "call ''set'' (set_dict key v) d = Inr d'" by simp
  then have "set_dict key v d = Inr d'" by (rule call_returns)
  then obtain p where p: "set_prop p v (invalidate d) = Inr d'"
    by (auto simp: set_dict_def split: option.splits sum.splits)
  from set_prop_inner [OF p] have "cache_ok d'"
    by (simp add: cache_ok_def invalidate_def)
  moreover from set_prop_hidden [OF p] assms(2) have "''__private__'' \<notin> fst ` set (props d')"
    by (simp add: hidden_def props_invalidate)
  ultimately show ?thesis by (simp add: hidden_def)
next
  case (Remove key)
  with assms(1) have "call ''remove'' (remove_dict key) d = Inr d'" by simp
  then have "remove_dict key d = Inr d'" by (rule call_returns)
  then obtain p where p: "delete_prop p (invalidate d) = Inr d'"
    by (auto simp: remove_dict_def split: option.splits sum.splits)
  from delete_prop_inner [OF p] have "cache_ok d'"
    by (simp add: cache_ok_def invalidate_def)
  moreover from delete_prop_hidden [OF p] assms(2) have "''__private__'' \<notin> fst ` set (props d')"
    by (simp add: hidden_def props_invalidate)
  ultimately show ?thesis by (simp add: hidden_def)
next
  case GetKeys
  with assms(1) have "call ''getKeys'' (\<lambda>d. Inr (snd (getKeys d))) d = Inr d'" by simp
  then have "Inr (snd (getKeys d)) = (Inr d' :: error + Dictionary)" by (rule call_returns)
  then have "d' = snd (getKeys d)" by simp
  with assms(2) show ?thesis
    by (auto simp: hidden_def props_getKeys cache_ok_getKeys)
next
  case Invalidate
  with assms(1) have "call ''invalidate'' (\<lambda>d. Inr (invalidate d)) d = Inr d'" by simp
  then have "Inr (invalidate d) = (Inr d' :: error + Dictionary)" by (rule call_returns)
  then have "d' = invalidate d" by simp
  with assms(2) show ?thesis
    by (auto simp: hidden_def props_invalidate cache_ok_invalid invalid_invalidate)
qed

lemma run_ops_hidden:
  assumes "run_ops ops d0 = Inr d" and "hidden d0"
  shows "hidden d"
  using assms
proof (induction ops arbitrary: d0)
  case Nil
  then show ?case by simp
next
  case (Cons x xs)
  from Cons.prems(1) obtain d1 where d1: "apply_op x d0 = Inr d1" "run_ops xs d1 = Inr d"
    by (auto split: sum.splits)
  from apply_op_hidden [OF d1(1) Cons.prems(2)] have "hidden d1" .
  with d1(2) show ?case by (rule Cons.IH)
qed

lemma hidden_new: "hidden (new_Dictionary cache)"
  by (simp add: hidden_def new_Dictionary_def cache_ok_def)

lemma hidden_keys:
  assumes "hidden d"
  shows "''__private__'' \<notin> set (fst (getKeys d))"
  using assms by (simp add: hidden_def fst_getKeys set_Object_keys)

lemma size_counts_entries:
  assumes "hidden d" and "size_dict d = Inr (n, d')"
  shows "n = length (props d)"
proof -
  from assms(2) have "n = length (fst (getKeys d))"
    by (auto simp: size_dict_def split: option.splits prod.splits)
  with assms(1) show ?thesis
    by (simp add: hidden_def fst_getKeys length_Object_keys)
qed

lemma digit_char_digit: "digit_char n \<in> set ''0123456789''"
  unfolding digit_char_def by (rule nth_mem) simp

lemma show_nat_digits: "set (show_nat n) \<subseteq> set ''0123456789''"
proof (induction n rule: show_nat.induct)
  case (1 n)
  show ?case
  proof (cases "n < 10")
    case True
    then show ?thesis
      using digit_char_digit [of n] by (subst show_nat.simps) simp
  next
    case False
    with 1 have "set (show_nat (n div 10)) \<subseteq> set ''0123456789''" by simp
    with False show ?thesis
      using digit_char_digit [of "n mod 10"] by (subst show_nat.simps) simp
  qed
qed

lemma show_nat_not_reserved: "show_nat n \<noteq> ''__private__''"
proof
  assume "show_nat n = ''__private__''"
  then have "CHR ''_'' \<in> set (show_nat n)" by simp
  with show_nat_digits [of n] have "CHR ''_'' \<in> set ''0123456789''" by (rule subsetD)
  then show False by simp
qed

lemma indices_not_reserved: "''__private__'' \<notin> set (map show_nat xs)"
proof (induction xs)
  case Nil
  show ?case by simp
next
  case (Cons x xs)
  have "''__private__'' \<noteq> show_nat x"
    using show_nat_not_reserved [of x] by (rule not_sym)
  with Cons show ?case by simp
qed

lemma get_prop_reads:
  assumes "get_prop p d = Inr (v, d')"
  shows "props d' = props d \<and> (v = VInner \<longrightarrow> p = ''__private__'' \<or> VInner \<in> snd ` set (props d))"
proof (cases "map_of (props d) p")
  case (Some x)
  with assms have vx: "v = x" "d' = d" by (simp_all add: get_prop_def)
  from Some have "(p, x) \<in> set (props d)" by (rule map_of_SomeD)
  then have "x \<in> snd ` set (props d)" by force
  with vx(1) have "v = VInner \<longrightarrow> VInner \<in> snd ` set (props d)" by blast
  with vx(2) show ?thesis by simp
next
  case None
  show ?thesis
  proof (cases "p = ''length''")
    case True
    with None assms obtain n where "length_dict d = Inr (n, d')" "v = VNum (int n)"
      by (auto simp: get_prop_def split: sum.splits)
    then have "d' = snd (getKeys d)"
      by (auto simp: length_dict_def size_dict_def split: option.splits prod.splits)
    with \<open>v = VNum (int n)\<close> show ?thesis by (simp add: props_getKeys)
  next
    case False
    with None assms show ?thesis
      by (auto simp: get_prop_def split: if_splits)
  qed
qed

lemma values_loop_inner:
  assumes "values_loop ps acc d = Inr (vs, d')"
    and "''__private__'' \<notin> set ps" and "VInner \<in> set vs"
  shows "VInner \<in> set acc \<or> VInner \<in> snd ` set (props d)"
  using assms
proof (induction ps arbitrary: acc d)
  case Nil
  then show ?case by simp
next
  case (Cons p ps)
  from Cons.prems(1) obtain v d1 where g: "get_prop p d = Inr (v, d1)"
    and l: "values_loop ps (acc @ [v]) d1 = Inr (vs, d')"
    by (auto split: sum.splits)
  from Cons.prems(2) have np: "p \<noteq> ''__private__''" "''__private__'' \<notin> set ps" by auto
  from Cons.IH [OF l np(2) Cons.prems(3)]
  have "VInner \<in> set (acc @ [v]) \<or> VInner \<in> snd ` set (props d1)" .
  with get_prop_reads [OF g] np(1) show ?case by auto
qed

lemma values_hide_inner:
  assumes "values_dict d = Inr (vs, d')" and "VInner \<in> set vs"
  shows "VInner \<in> snd ` set (props d)"
proof -
  from assms(1) have l: "values_loop (map show_nat [0..<length (fst (getKeys d))]) [] (snd (getKeys d)) = Inr (vs, d')"
    by (auto simp: values_dict_def split: option.splits prod.splits)
  have "''__private__'' \<notin> set (map show_nat [0..<length (fst (getKeys d))])"
    by (rule indices_not_reserved)
  from values_loop_inner [OF l this assms(2)] show ?thesis
    by (simp add: props_getKeys)
qed

lemma entries_loop_keys:
  assumes "entries_loop ks acc d = Inr (es, d')"
  shows "map fst es = map fst acc @ ks"
  using assms
proof (induction ks arbitrary: acc d)
  case Nil
  then show ?case by simp
next
  case (Cons k ks)
  from Cons.prems obtain v d1 where "entries_loop ks (acc @ [(k, v)]) d1 = Inr (es, d')"
    by (auto split: sum.splits)
  from Cons.IH [OF this] show ?case by simp
qed

lemma entries_keys:
  assumes "entries d = Inr (es, d')"
  shows "map fst es = fst (getKeys d)"
proof -
  from assms have "entries_loop (fst (getKeys d)) [] (snd (getKeys d)) = Inr (es, d')"
    by (auto simp: entries_def split: option.splits prod.splits)
  from entries_loop_keys [OF this] show ?thesis by simp
qed

lemma has_true_visible: "has (VStr key) d = Inr True \<Longrightarrow> visible_name key"
  by (auto simp: has_def visible_name_def split: if_splits)

lemma each_loop_recorded:
  assumes "each_loop (recording cb) ks ((acc, u), d) = Inr ((calls, u'), d')"
    and "list_all visible_name (map fst acc)"
  shows "list_all visible_name (map fst calls)"
  using assms
proof (induction ks arbitrary: acc u d)
  case Nil
  then show ?case by simp
next
  case (Cons key rest)
  show ?case
  proof (cases "map_of (props d) key = None \<or> has (VStr key) d = Inr False")
    case True
    with Cons.prems(1) have "each_loop (recording cb) rest ((acc, u), d) = Inr ((calls, u'), d')"
      by (auto split: option.splits sum.splits bool.splits if_splits)
    from Cons.IH [OF this Cons.prems(2)] show ?thesis .
  next
    case False
    with Cons.prems(1) obtain v d1 r u1 d2 where
      h: "has (VStr key) d = Inr True" and
      c: "recording cb key v ((acc, u), d1) = Inr (r, u1, d2)" and
      l: "r = VBool False \<and> (calls, u') = u1 \<and> d' = d2 \<or>
          each_loop (recording cb) rest (u1, d2) = Inr ((calls, u'), d')"
      by (auto split: option.splits sum.splits bool.splits if_splits)
    from c obtain u2 where u1: "u1 = (acc @ [(key, v, r)], u2)"
      by (auto simp: recording_def split: sum.splits prod.splits)
    have a: "list_all visible_name (map fst (acc @ [(key, v, r)]))"
      using Cons.prems(2) has_true_visible [OF h] by simp
    from l show ?thesis
    proof
      assume "r = VBool False \<and> (calls, u') = u1 \<and> d' = d2"
      with u1 a show ?thesis by auto
    next
      assume "each_loop (recording cb) rest (u1, d2) = Inr ((calls, u'), d')"
      with u1 have "each_loop (recording cb) rest ((acc @ [(key, v, r)], u2), d2) = Inr ((calls, u'), d')"
        by simp
      from Cons.IH [OF this a] show ?thesis .
    qed
  qed
qed

lemma each_hides_reserved:
  assumes "each (recording cb) (([], u), d) = Inr ((calls, u'), d')"
  shows "''__private__'' \<notin> fst ` set calls"
proof
  assume "''__private__'' \<in> fst ` set calls"
  moreover from assms have "list_all visible_name (map fst calls)"
    using each_loop_recorded [of cb "Object_keys d" "[]" u d calls u' d'] by (simp add: each_def)
  ultimately have "visible_name ''__private__''" by (auto simp: list_all_iff)
  then show False by (simp add: visible_name_def)
qed

lemma traversal_hides_reserved:
  assumes "hidden d" and "asyncForEach cbIterator cbComplete (u, d) = Inr (ks, w)"
    and "run cbIterator cbComplete ks w = Inr w'"
  shows "Visited ''__private__'' v \<notin> set (events w')"
proof
  assume "Visited ''__private__'' v \<in> set (events w')"
  moreover have "list_all (expected cbComplete ks) (events w')"
    using assms(2,3) by (rule expected_traversal)
  ultimately have "expected cbComplete ks (Visited ''__private__'' v)"
    unfolding list_all_iff by (rule bspec [rotated])
  then have "''__private__'' \<in> set ks" by simp
  moreover have "ks = fst (getKeys d)"
    using asyncForEach_start [OF assms(2)] by simp
  ultimately show False using hidden_keys [OF assms(1)] by simp
qed

text \<open>
  Claim C6. In every state that \<open>set\<close>, \<open>remove\<close>, \<open>getKeys\<close> and \<open>invalidate\<close> calls
  lead to from a new container, the field \<open>__private__\<close> is no entry: it is not among the
  keys of \<open>getKeys()\<close>, \<open>size()\<close> is the number of entries, \<open>values()\<close> holds the object
  of the field only if the caller stored that object as the value of an entry,
  \<open>entries()\<close> has no pair for it, and neither \<open>each\<close> nor \<open>asyncForEach\<close> with its
  later ticks, whatever the callbacks do, calls the step callback for it.
\<close>

theorem reserved_field_hidden:
  assumes "run_ops ops (new_Dictionary cache) = Inr d"
  shows "''__private__'' \<notin> set (fst (getKeys d)) \<and>
         ''__private__'' \<notin> fst ` set (props d) \<and>
         (\<forall>n d'. size_dict d = Inr (n, d') \<longrightarrow> n = length (props d)) \<and>
         (\<forall>vs d'. values_dict d = Inr (vs, d') \<longrightarrow> VInner \<in> set vs \<longrightarrow>
                  VInner \<in> snd ` set (props d)) \<and>
         (\<forall>es d'. entries d = Inr (es, d') \<longrightarrow> ''__private__'' \<notin> fst ` set es) \<and>
         (\<forall>(cb :: 'u each_callback) u calls u' d'.
            each (recording cb) (([], u), d) = Inr ((calls, u'), d') \<longrightarrow>
            ''__private__'' \<notin> fst ` set calls) \<and>
         (\<forall>(cbIterator :: 'w step_callback) cbComplete u ks w w' v.
            asyncForEach cbIterator cbComplete (u, d) = Inr (ks, w) \<longrightarrow>
            run cbIterator cbComplete ks w = Inr w' \<longrightarrow>
            Visited ''__private__'' v \<notin> set (events w'))"
proof -
  have h: "hidden d"
    using assms hidden_new by (rule run_ops_hidden)
  have 1: "''__private__'' \<notin> set (fst (getKeys d))"
    using h by (rule hidden_keys)
  have 2: "''__private__'' \<notin> fst ` set (props d)"
    using h by (simp add: hidden_def)
  have 3: "\<forall>n d'. size_dict d = Inr (n, d') \<longrightarrow> n = length (props d)"
    using size_counts_entries [OF h] by blast
  have 4: "\<forall>vs d'. values_dict d = Inr (vs, d') \<longrightarrow> VInner \<in> set vs \<longrightarrow>
                  VInner \<in> snd ` set (props d)"
    using values_hide_inner by blast
  have 5: "\<forall>es d'. entries d = Inr (es, d') \<longrightarrow> ''__private__'' \<notin> fst ` set es"
  proof (intro allI impI)
    fix es d' assume "entries d = Inr (es, d')"
    then have "map fst es = fst (getKeys d)" by (rule entries_keys)
    then have "fst ` set es = set (fst (getKeys d))" by (metis set_map)
    with 1 show "''__private__'' \<notin> fst ` set es" by simp
  qed
  have 6: "\<forall>(cb :: 'u each_callback) u calls u' d'.
            each (recording cb) (([], u), d) = Inr ((calls, u'), d') \<longrightarrow>
            ''__private__'' \<notin> fst ` set calls"
  proof (intro allI impI)
    fix cb :: "'u each_callback" and u calls u' d'
    assume "each (recording cb) (([], u), d) = Inr ((calls, u'), d')"
    then show "''__private__'' \<notin> fst ` set calls" by (rule each_hides_reserved)
  qed
  have 7: "\<forall>(cbIterator :: 'w step_callback) cbComplete u ks w w' v.
            asyncForEach cbIterator cbComplete (u, d) = Inr (ks, w) \<longrightarrow>
            run cbIterator cbComplete ks w = Inr w' \<longrightarrow>
            Visited ''__private__'' v \<notin> set (events w')"
    using traversal_hides_reserved [OF h] by blast
  from 1 2 3 4 5 6 7 show ?thesis by (intro conjI)
qed

lemma entries_abc:
  "entries abc = Inr ([(''a'', VNum 1), (''b'', VNum 2), (''c'', VNum 3)], abc)"
  by (simp add: entries_def abc_methods getKeys_abc abc_values)

theorem reserved_field_hidden_witness:
  "run_ops [Set (VStr ''a'') (VNum 1), Set (VStr ''b'') (VNum 2), Set (VStr ''c'') (VNum 3)]
     (new_Dictionary False) = Inr abc \<and>
   ''__private__'' \<notin> set (fst (getKeys abc)) \<and>
   ''__private__'' \<notin> fst ` set (props abc) \<and>
   getKeys abc = ([''a'', ''b'', ''c''], abc) \<and>
   entries abc = Inr ([(''a'', VNum 1), (''b'', VNum 2), (''c'', VNum 3)], abc)"
proof -
  note c = reserved_field_hidden [OF abc_reached]
  from c [THEN conjunct1] c [THEN conjunct2, THEN conjunct1] show ?thesis
    by (intro conjI abc_reached getKeys_abc entries_abc)
qed

end
